theory Spec2Isabelle
  imports Main "HOL-Library.Word" "HOL-Library.Sublist" "HOL-Library.Multiset"
    "HOL-Library.List_Lexorder"
begin

section \<open>The fuzzy scorer of \<^verbatim>\<open>vs/base/common/scorer\<close>\<close>

text \<open>
  The scorer lives in \<^verbatim>\<open>src/unnamed/part_004\<close>, lines 304 to 589: the functions
  \<^verbatim>\<open>score\<close>, \<^verbatim>\<open>scoreFile\<close> and \<^verbatim>\<open>compareFilesByScore\<close>.

  A string is the list of its UTF-16 code units, each a word of 16 bits. A read past the
  end of a string (\<^verbatim>\<open>s[i]\<close>) is \<^verbatim>\<open>undefined\<close>, here \<^const>\<open>None\<close>. A falsy string
  (\<^verbatim>\<open>!target\<close>) is the empty string. A JavaScript number that holds a score is an
  \<^typ>\<open>int\<close>; an index into a string is a \<^typ>\<open>nat\<close>.

  \<^verbatim>\<open>String.prototype.toLowerCase\<close> belongs to the host, not to the repository. It is the
  first parameter of every function that calls it, and every theorem below holds for every
  function from strings to strings in its place, also for one that changes the length of
  a string.
\<close>

subsection \<open>Strings\<close>

type_synonym code_unit = "16 word"

type_synonym jsstring = "code_unit list"

text \<open>A string literal of ASCII characters as a list of code units.\<close>

definition js :: "string \<Rightarrow> jsstring" where
  "js s = map of_char s"

text \<open>\<^verbatim>\<open>s[i]\<close>: the code unit at index \<open>i\<close>, or \<^verbatim>\<open>undefined\<close>.\<close>

definition unitAt :: "jsstring \<Rightarrow> nat \<Rightarrow> code_unit option" where
  "unitAt s i = (if i < length s then Some (s ! i) else None)"

text \<open>\<^verbatim>\<open>isUpper(code)\<close>, line 447.\<close>

definition isUpper :: "nat \<Rightarrow> bool" where
  "isUpper code = (65 \<le> code \<and> code \<le> 90)"

text \<open>
  \<^verbatim>\<open>s.indexOf(search, startAt)\<close>: the first index at or after \<^verbatim>\<open>startAt\<close> where
  \<^verbatim>\<open>search\<close> begins in \<^verbatim>\<open>s\<close>; \<^verbatim>\<open>-1\<close> is \<^const>\<open>None\<close>. A start past the end is the
  end, where only the empty string is found.
\<close>

fun indexOf :: "jsstring \<Rightarrow> jsstring \<Rightarrow> nat \<Rightarrow> nat option" where
  "indexOf [] search startAt = (if search = [] then Some 0 else None)"
| "indexOf (x # xs) search 0 =
     (if prefix search (x # xs) then Some 0 else map_option Suc (indexOf xs search 0))"
| "indexOf (x # xs) search (Suc n) = map_option Suc (indexOf xs search n)"

text \<open>
  The argument \<^verbatim>\<open>queryLower[index]\<close> of \<^verbatim>\<open>indexOf\<close> at line 377: a string of one code
  unit, or \<^verbatim>\<open>undefined\<close>, which \<^verbatim>\<open>indexOf\<close> turns into the string \<^verbatim>\<open>"undefined"\<close>.
\<close>

definition searchString :: "jsstring \<Rightarrow> nat \<Rightarrow> jsstring" where
  "searchString queryLower index =
     (case unitAt queryLower index of None \<Rightarrow> js ''undefined'' | Some u \<Rightarrow> [u])"

subsection \<open>\<^verbatim>\<open>score\<close>\<close>

type_synonym Score = "int \<times> nat list"

text \<open>The cache object: a map from the key \<^verbatim>\<open>target + query\<close> to a stored score.\<close>

type_synonym cache = "jsstring \<rightharpoonup> Score"

definition NO_SCORE :: Score where
  "NO_SCORE = (0, [])"

text \<open>Line 319: the units of \<^verbatim>\<open>-\<close>, \<^verbatim>\<open>_\<close>, space, \<^verbatim>\<open>/\<close>, \<^verbatim>\<open>\\<close> and \<^verbatim>\<open>.\<close>.\<close>

definition wordPathBoundary :: "code_unit list" where
  "wordPathBoundary = [0x2D, 0x5F, 0x20, 0x2F, 0x5C, 0x2E]"

text \<open>
  \<^verbatim>\<open>wordPathBoundary.some(w => w === target[indexOf - 1])\<close>, line 416, and
  \<^verbatim>\<open>isUpper(target.charCodeAt(indexOf))\<close>, line 423. Past the end of the target the
  first compares with \<^verbatim>\<open>undefined\<close> and the second tests \<^verbatim>\<open>NaN\<close>: both are false.
\<close>

definition boundaryBefore :: "jsstring \<Rightarrow> nat \<Rightarrow> bool" where
  "boundaryBefore target i =
     (case unitAt target (i - 1) of None \<Rightarrow> False | Some u \<Rightarrow> u \<in> set wordPathBoundary)"

definition upperAt :: "jsstring \<Rightarrow> nat \<Rightarrow> bool" where
  "upperAt target i = (case unitAt target i of None \<Rightarrow> False | Some u \<Rightarrow> isUpper (unat u))"

text \<open>
  The \<^verbatim>\<open>while\<close> loop of lines 376 to 433. Its state is \<^verbatim>\<open>index\<close>, \<^verbatim>\<open>startAt\<close>,
  \<^verbatim>\<open>score\<close> and \<^verbatim>\<open>matchingPositions\<close>. The index found is an index into
  \<^verbatim>\<open>targetLower\<close>; the bonuses read \<^verbatim>\<open>target\<close> at that index. A search that finds
  nothing sets the score to 0 and leaves the loop, with the positions pushed so far still
  in the array.
\<close>

function score_loop ::
  "jsstring \<Rightarrow> jsstring \<Rightarrow> jsstring \<Rightarrow> jsstring \<Rightarrow> nat \<Rightarrow> nat \<Rightarrow> int \<Rightarrow> nat list \<Rightarrow> int \<times> nat list" where
  "score_loop target query targetLower queryLower index startAt sc matchingPositions =
     (if index < length query then
        (case indexOf targetLower (searchString queryLower index) startAt of
           None \<Rightarrow> (0, matchingPositions)
         | Some i \<Rightarrow>
             let sc1 = sc + 1;
                 sc2 = (if startAt = i \<and> index > 0 then sc1 + 5 else sc1);
                 sc3 = (if unitAt target i = unitAt query index then sc2 + 1 else sc2);
                 sc4 = (if i = 0 then sc3 + 8
                        else if boundaryBefore target i then sc3 + 7
                        else if upperAt target i then sc3 + 1
                        else sc3)
             in score_loop target query targetLower queryLower (index + 1) (i + 1) sc4
                  (matchingPositions @ [i]))
      else (sc, matchingPositions))"
  by pat_completeness auto
termination
  by (relation "measure (\<lambda>(target, query, targetLower, queryLower, index, startAt, sc, mp).
        length query - index)") auto

declare score_loop.simps [simp del]

text \<open>
  \<^verbatim>\<open>score(target, query, cache?)\<close>, lines 350 to 445, with the host's
  \<^verbatim>\<open>toLowerCase\<close> as the parameter \<open>toLowerCase\<close>. An absent cache is \<^const>\<open>None\<close>; the
  function returns the score and the cache as the call leaves it.
\<close>

definition cache_lookup :: "cache option \<Rightarrow> jsstring \<Rightarrow> Score option" where
  "cache_lookup cache hash = (case cache of None \<Rightarrow> None | Some c \<Rightarrow> c hash)"

definition score ::
  "(jsstring \<Rightarrow> jsstring) \<Rightarrow> jsstring \<Rightarrow> jsstring \<Rightarrow> cache option \<Rightarrow> Score \<times> cache option" where
  "score toLowerCase target query cache =
     (if target = [] \<or> query = [] then (NO_SCORE, cache)
      else if length target < length query then (NO_SCORE, cache)
      else
        let hash = target @ query;
            cached = cache_lookup cache hash
        in case cached of
             Some v \<Rightarrow> (v, cache)
           | None \<Rightarrow>
               let targetLower = toLowerCase target;
                   queryLower = toLowerCase query;
                   (sc, matchingPositions) = score_loop target query targetLower queryLower 0 0 0 [];
                   res = (if sc > 0 then (sc, matchingPositions) else NO_SCORE)
               in (res, map_option (\<lambda>c. c(hash \<mapsto> res)) cache))"

text \<open>
  A lower-casing for the examples: the values of \<^verbatim>\<open>toLowerCase\<close> on the code units of
  Basic Latin and Latin-1, and on U+0130, which becomes the two units U+0069 U+0307. The
  examples use no other unit.
\<close>

definition lowerUnit :: "code_unit \<Rightarrow> jsstring" where
  "lowerUnit u =
     (if (0x41 \<le> u \<and> u \<le> 0x5A) \<or> (0xC0 \<le> u \<and> u \<le> 0xDE \<and> u \<noteq> 0xD7) then [u + 0x20]
      else if u = 0x130 then [0x69, 0x307]
      else [u])"

definition toLowerCaseSample :: "jsstring \<Rightarrow> jsstring" where
  "toLowerCaseSample s = concat (map lowerUnit s)"

text \<open>
  A sequence of calls \<^verbatim>\<open>score(t, q, cache)\<close> that share one cache object, in order,
  the fresh cache \<^verbatim>\<open>Object.create(null)\<close> of the test at line 70, and the keys a cache
  holds.
\<close>

definition empty_cache :: "cache option" where
  "empty_cache = Some Map.empty"

definition cache_keys :: "cache option \<Rightarrow> jsstring set" where
  "cache_keys cache = (case cache of None \<Rightarrow> {} | Some c \<Rightarrow> dom c)"

definition call_key :: "jsstring \<times> jsstring \<Rightarrow> jsstring" where
  "call_key call = fst call @ snd call"

text \<open>The calls that get past the two early returns of lines 351 to 357.\<close>

definition reaches_cache :: "jsstring \<times> jsstring \<Rightarrow> bool" where
  "reaches_cache call = (fst call \<noteq> [] \<and> snd call \<noteq> [] \<and> length (snd call) \<le> length (fst call))"

text \<open>No call of the history has the key of \<open>(target, query)\<close> and is another pair.\<close>

definition no_collision :: "(jsstring \<times> jsstring) list \<Rightarrow> jsstring \<Rightarrow> jsstring \<Rightarrow> bool" where
  "no_collision calls target query =
     (\<forall>call \<in> set calls. call_key call = target @ query \<longrightarrow> call = (target, query))"

text \<open>Every entry of the cache is the score of a pair of \<open>S\<close> that has the entry's key.\<close>

definition cache_sound ::
  "(jsstring \<Rightarrow> jsstring) \<Rightarrow> (jsstring \<times> jsstring) set \<Rightarrow> cache \<Rightarrow> bool" where
  "cache_sound toLowerCase S c =
     (\<forall>k v. c k = Some v \<longrightarrow>
        (\<exists>call \<in> S. call_key call = k \<and> v = fst (score toLowerCase (fst call) (snd call) None)))"

fun run_scores ::
  "(jsstring \<Rightarrow> jsstring) \<Rightarrow> (jsstring \<times> jsstring) list \<Rightarrow> cache option \<Rightarrow> cache option" where
  "run_scores toLowerCase [] cache = cache"
| "run_scores toLowerCase ((t, q) # calls) cache =
     run_scores toLowerCase calls (snd (score toLowerCase t q cache))"

subsection \<open>The scoring rules as the specification words them\<close>

text \<open>
  What the search looks for, one string for each character of the query: the code unit of
  the lower-cased query at the place of that character.
\<close>

definition query_searches :: "(jsstring \<Rightarrow> jsstring) \<Rightarrow> jsstring \<Rightarrow> jsstring list" where
  "query_searches toLowerCase query =
     map (searchString (toLowerCase query)) [0..<length query]"

text \<open>
  The greedy search of the specification: for each character of the query in order, the
  first occurrence in the lower-cased target at or after the cursor; the cursor moves one
  past the match. \<^const>\<open>None\<close> when some character is not found.
\<close>

fun greedy_positions :: "jsstring \<Rightarrow> jsstring list \<Rightarrow> nat \<Rightarrow> nat list option" where
  "greedy_positions targetLower [] startAt = Some []"
| "greedy_positions targetLower (u # us) startAt =
     (case indexOf targetLower u startAt of
        None \<Rightarrow> None
      | Some i \<Rightarrow> map_option ((#) i) (greedy_positions targetLower us (Suc i)))"

text \<open>
  The points of the \<open>k\<close>-th query character, matched at \<open>ps ! k\<close>: 1 for the match, 5 when
  it is not the first character and directly follows the previous match, 1 when the target
  character at the matched index is the query character, and one of 8 (index 0), 7 (the
  target character before the index is a boundary character) or 1 (the target character at
  the index is an upper-case letter).
\<close>

definition spec_char_score :: "jsstring \<Rightarrow> jsstring \<Rightarrow> nat list \<Rightarrow> nat \<Rightarrow> int" where
  "spec_char_score target query ps k =
     1 + (if 0 < k \<and> ps ! k = Suc (ps ! (k - 1)) then 5 else 0)
       + (if unitAt target (ps ! k) = unitAt query k then 1 else 0)
       + (if ps ! k = 0 then 8
          else if boundaryBefore target (ps ! k) then 7
          else if upperAt target (ps ! k) then 1
          else 0)"

definition spec_score :: "jsstring \<Rightarrow> jsstring \<Rightarrow> nat list \<Rightarrow> int" where
  "spec_score target query ps = sum_list (map (spec_char_score target query ps) [0..<length query])"

text \<open>
  What one round of the loop adds to the score, and the total over the rounds that match
  the positions \<open>ps\<close> from the loop state \<open>(index, startAt)\<close>.
\<close>

definition gain :: "jsstring \<Rightarrow> jsstring \<Rightarrow> nat \<Rightarrow> nat \<Rightarrow> nat \<Rightarrow> int" where
  "gain target query index startAt i =
     1 + (if startAt = i \<and> index > 0 then 5 else 0)
       + (if unitAt target i = unitAt query index then 1 else 0)
       + (if i = 0 then 8
          else if boundaryBefore target i then 7
          else if upperAt target i then 1
          else 0)"

fun gains :: "jsstring \<Rightarrow> jsstring \<Rightarrow> nat \<Rightarrow> nat \<Rightarrow> nat list \<Rightarrow> int" where
  "gains target query index startAt [] = 0"
| "gains target query index startAt (p # ps) =
     gain target query index startAt p + gains target query (Suc index) (Suc p) ps"

text \<open>
  The invariant of the data model on a score for a query, with \<open>n\<close> the length of the
  string that the positions index.
\<close>

definition score_ok :: "nat \<Rightarrow> jsstring \<Rightarrow> Score \<Rightarrow> bool" where
  "score_ok n query r =
     (0 \<le> fst r \<and>
      (0 < fst r \<longrightarrow>
         sorted_wrt (<) (snd r) \<and> length (snd r) = length query \<and>
         (\<forall>p \<in> set (snd r). p < n)) \<and>
      (fst r = 0 \<longrightarrow> snd r = []))"

subsection \<open>\<^verbatim>\<open>scoreFile\<close>\<close>

text \<open>\<^verbatim>\<open>IMatch\<close> of \<^verbatim>\<open>vs/base/common/filters\<close>: the range \<open>[start, end)\<close>.\<close>

record IMatch =
  m_start :: nat
  m_end :: nat

text \<open>
  \<^verbatim>\<open>IFileScore\<close>, lines 454 to 470. The field \<^verbatim>\<open>score\<close> is \<open>file_score\<close> here; an
  optional field that is absent is \<^const>\<open>None\<close>.
\<close>

record IFileScore =
  file_score :: int
  basenameMatch :: "IMatch list option"
  pathMatch :: "IMatch list option"

definition NO_FILE_SCORE :: IFileScore where
  "NO_FILE_SCORE = \<lparr>file_score = 0, basenameMatch = None, pathMatch = None\<rparr>"

text \<open>
  \<^verbatim>\<open>IFileAccessor<T>\<close>, lines 474 to 477. A file is a \<^typ>\<open>'t option\<close>, where
  \<^const>\<open>None\<close> is a falsy file (\<^verbatim>\<open>null\<close>); the accessor is handed the file as the
  caller passed it, and returns a string, as its type says.
\<close>

record 't IFileAccessor =
  getBasename :: "'t option \<Rightarrow> jsstring"
  getPath :: "'t option \<Rightarrow> jsstring"

text \<open>Lines 479 to 481: \<^verbatim>\<open>1 << 18\<close>, \<^verbatim>\<open>1 << 17\<close>, \<^verbatim>\<open>1 << 16\<close>.\<close>

definition PATH_IDENTITY_SCORE :: int where
  "PATH_IDENTITY_SCORE = push_bit 18 1"

definition BASENAME_PREFIX_SCORE :: int where
  "BASENAME_PREFIX_SCORE = push_bit 17 1"

definition BASENAME_SCORE_THRESHOLD :: int where
  "BASENAME_SCORE_THRESHOLD = push_bit 16 1"

text \<open>
  Modelled from the spec: \<^verbatim>\<open>isEqual\<close> of \<^verbatim>\<open>vs/base/common/paths\<close> is imported at
  line 313 and is not among the sources. The specification calls it case-insensitive path
  equality when its third argument is \<^verbatim>\<open>true\<close>.
\<close>

definition isEqual :: "(jsstring \<Rightarrow> jsstring) \<Rightarrow> jsstring \<Rightarrow> jsstring \<Rightarrow> bool \<Rightarrow> bool" where
  "isEqual toLowerCase pathA pathB ignoreCase =
     (if ignoreCase then toLowerCase pathA = toLowerCase pathB else pathA = pathB)"

text \<open>
  Modelled from the spec: \<^verbatim>\<open>matchesPrefix\<close> of \<^verbatim>\<open>vs/base/common/filters\<close> is imported at
  line 312 and is not among the sources. By the specification it is a case-insensitive
  prefix test of the word against the basename that yields the single range
  \<open>[0, len(query))\<close>; no match is \<^const>\<open>None\<close>.
\<close>

definition matchesPrefix ::
  "(jsstring \<Rightarrow> jsstring) \<Rightarrow> jsstring \<Rightarrow> jsstring \<Rightarrow> IMatch list option" where
  "matchesPrefix toLowerCase word wordToMatchAgainst =
     (if prefix (toLowerCase word) (toLowerCase wordToMatchAgainst)
      then Some [\<lparr>m_start = 0, m_end = length word\<rparr>]
      else None)"

text \<open>
  Modelled from the spec: \<^verbatim>\<open>createMatches\<close> of \<^verbatim>\<open>vs/base/common/filters\<close> is imported at
  line 312 and is not among the sources. By the specification it merges adjacent matched
  positions into half-open ranges.
\<close>

fun createMatches :: "nat list \<Rightarrow> IMatch list" where
  "createMatches [] = []"
| "createMatches (p # ps) =
     (case createMatches ps of
        [] \<Rightarrow> [\<lparr>m_start = p, m_end = Suc p\<rparr>]
      | m # ms \<Rightarrow>
          if m_start m = Suc p then m\<lparr>m_start := p\<rparr> # ms
          else \<lparr>m_start = p, m_end = Suc p\<rparr> # m # ms)"

text \<open>
  \<^verbatim>\<open>scoreFile(file, accessor, query, cache?)\<close>, lines 487 to 523. The cache is handed to
  both calls of \<^const>\<open>score\<close> and comes back as they leave it.
\<close>

definition scoreFile ::
  "(jsstring \<Rightarrow> jsstring) \<Rightarrow> 't option \<Rightarrow> 't IFileAccessor \<Rightarrow> jsstring \<Rightarrow> cache option \<Rightarrow>
     IFileScore \<times> cache option" where
  "scoreFile toLowerCase file accessor query cache =
     (if file = None then (NO_FILE_SCORE, cache)
      else
        let basename = getBasename accessor file;
            path = getPath accessor file
        in
          if basename = [] \<or> path = [] then (NO_FILE_SCORE, cache)
          else if isEqual toLowerCase query path True then
            (\<lparr>file_score = PATH_IDENTITY_SCORE,
              basenameMatch = Some [\<lparr>m_start = 0, m_end = length basename\<rparr>],
              pathMatch = Some [\<lparr>m_start = 0, m_end = length path\<rparr>]\<rparr>, cache)
          else
            case matchesPrefix toLowerCase query basename of
              Some prefixBasenameMatch \<Rightarrow>
                (\<lparr>file_score = BASENAME_PREFIX_SCORE,
                  basenameMatch = Some prefixBasenameMatch,
                  pathMatch = None\<rparr>, cache)
            | None \<Rightarrow>
                let ((basenameScore, basenamePositions), cache1) =
                      score toLowerCase basename query cache
                in
                  if basenameScore \<noteq> 0 then
                    (\<lparr>file_score = basenameScore + BASENAME_SCORE_THRESHOLD,
                      basenameMatch = Some (createMatches basenamePositions),
                      pathMatch = None\<rparr>, cache1)
                  else
                    let ((pathScore, pathPositions), cache2) =
                          score toLowerCase path query cache1
                    in
                      if pathScore \<noteq> 0 then
                        (\<lparr>file_score = pathScore,
                          basenameMatch = None,
                          pathMatch = Some (createMatches pathPositions)\<rparr>, cache2)
                      else (NO_FILE_SCORE, cache2))"

subsection \<open>\<^verbatim>\<open>compareFilesByScore\<close>\<close>

text \<open>
  \<^verbatim>\<open>compareFilesByScore(fileA, fileB, accessor, query, cache?)\<close>, lines 525 to 589.
  \<^verbatim>\<open>compareAnything\<close> of \<^verbatim>\<open>vs/base/common/comparers\<close> is imported at line 311 and is
  not among the sources: it is the second parameter here. Each \<^verbatim>\<open>return\<close> of the source
  is one branch, in the order of the source.
\<close>

definition compareFilesByScore ::
  "(jsstring \<Rightarrow> jsstring) \<Rightarrow> (jsstring \<Rightarrow> jsstring \<Rightarrow> jsstring \<Rightarrow> int) \<Rightarrow> 't option \<Rightarrow> 't option \<Rightarrow>
     't IFileAccessor \<Rightarrow> jsstring \<Rightarrow> cache option \<Rightarrow> int \<times> cache option" where
  "compareFilesByScore toLowerCase compareAnything fileA fileB accessor query cache =
     (let (resA, cache1) = scoreFile toLowerCase fileA accessor query cache;
          (resB, cache2) = scoreFile toLowerCase fileB accessor query cache1;
          scoreA = file_score resA;
          scoreB = file_score resB;
          basenameA = getBasename accessor fileA;
          basenameB = getBasename accessor fileB;
          pathA = getPath accessor fileA;
          pathB = getPath accessor fileB
      in
        (if (scoreA = PATH_IDENTITY_SCORE \<or> scoreB = PATH_IDENTITY_SCORE) \<and> scoreA \<noteq> scoreB
           then (if scoreA = PATH_IDENTITY_SCORE then - 1 else 1)
         else if (scoreA = BASENAME_PREFIX_SCORE \<or> scoreB = BASENAME_PREFIX_SCORE)
                 \<and> scoreA \<noteq> scoreB
           then (if scoreA = BASENAME_PREFIX_SCORE then - 1 else 1)
         else if (scoreA = BASENAME_PREFIX_SCORE \<or> scoreB = BASENAME_PREFIX_SCORE)
                 \<and> length basenameA \<noteq> length basenameB
           then int (length basenameA) - int (length basenameB)
         else if (scoreA > BASENAME_SCORE_THRESHOLD \<or> scoreB > BASENAME_SCORE_THRESHOLD)
                 \<and> scoreB < BASENAME_SCORE_THRESHOLD
           then - 1
         else if (scoreA > BASENAME_SCORE_THRESHOLD \<or> scoreB > BASENAME_SCORE_THRESHOLD)
                 \<and> scoreA < BASENAME_SCORE_THRESHOLD
           then 1
         else if scoreA \<noteq> scoreB
           then (if scoreA > scoreB then - 1 else 1)
         else if length basenameA \<noteq> length basenameB
           then int (length basenameA) - int (length basenameB)
         else if length pathA \<noteq> length pathB
           then int (length pathA) - int (length pathB)
         else if basenameA \<noteq> basenameB
           then compareAnything basenameA basenameB query
         else compareAnything pathA pathB query,
         cache2))"

subsection \<open>Files, accessors and comparators for the examples\<close>

text \<open>
  A file given as its basename and its path, with the accessor that reads them; a file
  with a tag that the accessor does not read; the files of the tests at lines 82 and 287
  to 289; two comparisons of strings that can stand for \<^verbatim>\<open>compareAnything\<close>, by code
  units and by lower-cased code units; the comparator without a cache; and the order that
  the specification describes, on the triple of file score, basename and path.
\<close>

definition pairAccessor :: "(jsstring \<times> jsstring) IFileAccessor" where
  "pairAccessor =
     \<lparr>getBasename = (\<lambda>file. case file of None \<Rightarrow> [] | Some f \<Rightarrow> fst f),
      getPath = (\<lambda>file. case file of None \<Rightarrow> [] | Some f \<Rightarrow> snd f)\<rparr>"

definition taggedAccessor :: "(nat \<times> jsstring \<times> jsstring) IFileAccessor" where
  "taggedAccessor =
     \<lparr>getBasename = (\<lambda>file. case file of None \<Rightarrow> [] | Some f \<Rightarrow> fst (snd f)),
      getPath = (\<lambda>file. case file of None \<Rightarrow> [] | Some f \<Rightarrow> snd (snd f))\<rparr>"

definition comparator_ok :: "(jsstring \<Rightarrow> jsstring \<Rightarrow> jsstring \<Rightarrow> int) \<Rightarrow> jsstring \<Rightarrow> bool" where
  "comparator_ok compareAnything query =
     ((\<forall>x y. compareAnything x y query < 0 \<longleftrightarrow> 0 < compareAnything y x query) \<and>
      (\<forall>x y. compareAnything x y query = 0 \<longleftrightarrow> x = y) \<and>
      (\<forall>x y z. compareAnything x y query < 0 \<and> compareAnything y z query < 0 \<longrightarrow>
         compareAnything x z query < 0))"

definition lexCompare :: "jsstring \<Rightarrow> jsstring \<Rightarrow> jsstring \<Rightarrow> int" where
  "lexCompare one other lookFor = (if one < other then - 1 else if other < one then 1 else 0)"

definition lowerCompare :: "jsstring \<Rightarrow> jsstring \<Rightarrow> jsstring \<Rightarrow> int" where
  "lowerCompare one other lookFor = lexCompare (toLowerCaseSample one) (toLowerCaseSample other) lookFor"

definition compareFiles ::
  "(jsstring \<Rightarrow> jsstring) \<Rightarrow> (jsstring \<Rightarrow> jsstring \<Rightarrow> jsstring \<Rightarrow> int) \<Rightarrow> 't IFileAccessor \<Rightarrow> jsstring \<Rightarrow>
     't option \<Rightarrow> 't option \<Rightarrow> int" where
  "compareFiles toLowerCase compareAnything accessor query fileA fileB =
     fst (compareFilesByScore toLowerCase compareAnything fileA fileB accessor query None)"

definition file_key ::
  "(jsstring \<Rightarrow> jsstring) \<Rightarrow> 't IFileAccessor \<Rightarrow> jsstring \<Rightarrow> 't option \<Rightarrow> int \<times> jsstring \<times> jsstring" where
  "file_key toLowerCase accessor query file =
     (file_score (fst (scoreFile toLowerCase file accessor query None)),
      getBasename accessor file, getPath accessor file)"

definition score_rank :: "int \<Rightarrow> nat" where
  "score_rank s =
     (if s = PATH_IDENTITY_SCORE then 0 else if s = BASENAME_PREFIX_SCORE then 1 else 2)"

definition key_less ::
  "(jsstring \<Rightarrow> jsstring \<Rightarrow> jsstring \<Rightarrow> int) \<Rightarrow> jsstring \<Rightarrow> int \<times> jsstring \<times> jsstring \<Rightarrow>
     int \<times> jsstring \<times> jsstring \<Rightarrow> bool" where
  "key_less compareAnything query k1 k2 =
     (case (k1, k2) of ((s1, b1, p1), (s2, b2, p2)) \<Rightarrow>
        score_rank s1 < score_rank s2 \<or>
        score_rank s1 = score_rank s2 \<and>
          (s2 < s1 \<or>
           s1 = s2 \<and>
             (length b1 < length b2 \<or>
              length b1 = length b2 \<and>
                (length p1 < length p2 \<or>
                 length p1 = length p2 \<and>
                   (if b1 \<noteq> b2 then compareAnything b1 b2 query < 0
                    else compareAnything p1 p2 query < 0)))))"

definition someFile :: "(jsstring \<times> jsstring) option" where
  "someFile = Some (js ''someFile123.txt'', js ''/xyz/some/path/someFile123.txt'')"

definition resourceA :: "(jsstring \<times> jsstring) option" where
  "resourceA = Some (js ''fileA.txt'', js ''/some/path/fileA.txt'')"

definition resourceB :: "(jsstring \<times> jsstring) option" where
  "resourceB = Some (js ''fileB.txt'', js ''/some/path/other/fileB.txt'')"

definition resourceC :: "(jsstring \<times> jsstring) option" where
  "resourceC = Some (js ''fileC.txt'', js ''/unrelated/some/path/other/fileC.txt'')"

definition taggedFile1 :: "(nat \<times> jsstring \<times> jsstring) option" where
  "taggedFile1 = Some (1, js ''fileA.txt'', js ''/some/path/fileA.txt'')"

definition taggedFile2 :: "(nat \<times> jsstring \<times> jsstring) option" where
  "taggedFile2 = Some (2, js ''fileA.txt'', js ''/some/path/fileA.txt'')"

definition caseFileX :: "(jsstring \<times> jsstring) option" where
  "caseFileX = Some (js ''A'', js ''x/A'')"

definition caseFileY :: "(jsstring \<times> jsstring) option" where
  "caseFileY = Some (js ''a'', js ''y/a'')"

definition caseFileZ :: "(jsstring \<times> jsstring) option" where
  "caseFileZ = Some (js ''A'', js ''z/A'')"

section \<open>Properties\<close>

subsection \<open>The search\<close>

lemma js_simps [simp]:
  "js [] = []"
  "js (c # cs) = of_char c # js cs"
  "length (js s) = length s"
  by (simp_all add: js_def)

lemma cache_lookup_simps [simp]:
  "cache_lookup None k = None"
  "cache_lookup (Some c) k = c k"
  by (simp_all add: cache_lookup_def)

lemma searchString_nonempty [simp]: "searchString ql k \<noteq> []"
  by (simp add: searchString_def js_def split: option.split)

lemma indexOf_Some:
  "u \<noteq> [] \<Longrightarrow> indexOf s u k = Some i \<Longrightarrow> k \<le> i \<and> i < length s"
  by (induction s u k arbitrary: i rule: indexOf.induct) (auto split: if_splits)

lemma indexOf_single_Some: "indexOf s [c] k = Some i \<Longrightarrow> k \<le> i \<and> i < length s \<and> s ! i = c"
  by (induction s "[c]" k arbitrary: i rule: indexOf.induct) (auto split: if_splits)

lemma indexOf_single_None: "indexOf s [c] k = None \<longleftrightarrow> c \<notin> set (drop k s)"
  by (induction s "[c]" k rule: indexOf.induct) auto

lemma indexOf_single_first:
  "indexOf s [c] k = Some i \<Longrightarrow> k \<le> j \<Longrightarrow> j < i \<Longrightarrow> s ! j \<noteq> c"
proof (induction s "[c]" k arbitrary: i j rule: indexOf.induct)
  case (1 startAt)
  then show ?case by simp
next
  case (2 x xs)
  then show ?case by (cases j) (auto split: if_splits)
next
  case (3 x xs n)
  then show ?case by (cases j) auto
qed

lemma indexOf_single_split:
  assumes "indexOf s [c] k = Some i"
  shows "\<exists>us. drop k s = us @ c # drop (Suc i) s \<and> c \<notin> set us"
proof -
  from indexOf_single_Some [OF assms] have ki: "k \<le> i" and il: "i < length s" and si: "s ! i = c"
    by auto
  let ?us = "take (i - k) (drop k s)"
  have "drop k s = ?us @ drop (i - k) (drop k s)" by (simp only: append_take_drop_id)
  also have "drop (i - k) (drop k s) = drop i s" using ki by simp
  also have "drop i s = c # drop (Suc i) s" using il si Cons_nth_drop_Suc [of i s] by simp
  finally have e: "drop k s = ?us @ c # drop (Suc i) s" .
  have "c \<notin> set ?us"
  proof
    assume "c \<in> set ?us"
    then obtain j where j: "j < length ?us" "?us ! j = c" by (auto simp: in_set_conv_nth)
    then have "j < i - k" by simp
    with j ki il have "s ! (k + j) = c" by simp
    moreover have "s ! (k + j) \<noteq> c"
      using indexOf_single_first [OF assms, of "k + j"] \<open>j < i - k\<close> by simp
    ultimately show False by simp
  qed
  with e show ?thesis by blast
qed

lemma subseq_first_occurrence:
  "c \<notin> set us \<Longrightarrow> subseq (c # cs) (us @ c # vs) \<longleftrightarrow> subseq cs vs"
  by (induction us) (auto simp: subseq_Cons2_neq)

lemma greedy_single_None_iff:
  "greedy_positions t (map (\<lambda>c. [c]) q) s = None \<longleftrightarrow> \<not> subseq q (drop s t)"
proof (induction q arbitrary: s)
  case Nil
  then show ?case by simp
next
  case (Cons c cs)
  show ?case
  proof (cases "indexOf t [c] s")
    case None
    then have "c \<notin> set (drop s t)" by (simp add: indexOf_single_None)
    then have "\<not> subseq (c # cs) (drop s t)"
      by (auto dest: list_emb_set)
    with None show ?thesis by simp
  next
    case (Some i)
    from indexOf_single_split [OF Some] obtain us where
      us: "drop s t = us @ c # drop (Suc i) t" "c \<notin> set us" by blast
    have "subseq (c # cs) (drop s t) \<longleftrightarrow> subseq cs (drop (Suc i) t)"
      using us by (simp add: subseq_first_occurrence)
    with Some Cons.IH [of "Suc i"] show ?thesis by simp
  qed
qed

lemma query_searches_same_length:
  assumes "length (lc query) = length query"
  shows "query_searches lc query = map (\<lambda>c. [c]) (lc query)"
proof -
  have "map (searchString (lc query)) [0..<length (lc query)] =
      map (\<lambda>i. [lc query ! i]) [0..<length (lc query)]"
    by (intro map_cong refl) (simp add: searchString_def unitAt_def)
  also have "\<dots> = map (\<lambda>c. [c]) (map ((!) (lc query)) [0..<length (lc query)])"
    by (simp add: comp_def)
  also have "\<dots> = map (\<lambda>c. [c]) (lc query)"
    by (simp only: map_nth)
  finally show ?thesis using assms by (simp add: query_searches_def)
qed

lemma greedy_query_None_iff:
  assumes "length (lc query) = length query"
  shows "greedy_positions (lc target) (query_searches lc query) 0 = None \<longleftrightarrow>
    \<not> subseq (lc query) (lc target)"
  using greedy_single_None_iff [of "lc target" "lc query" 0]
  by (simp add: query_searches_same_length [of lc query, OF assms])

lemma sc4_gain:
  "(let sc1 = sc + 1;
        sc2 = (if startAt = i \<and> index > 0 then sc1 + 5 else sc1);
        sc3 = (if unitAt target i = unitAt query index then sc2 + 1 else sc2);
        sc4 = (if i = 0 then sc3 + 8
               else if boundaryBefore target i then sc3 + 7
               else if upperAt target i then sc3 + 1
               else sc3)
    in f sc4) = f (sc + gain target query index startAt i)"
  unfolding Let_def gain_def
  by (rule arg_cong [where f = f]) (simp split: if_split)

lemma score_loop_step:
  "score_loop target query targetLower queryLower index startAt sc mp =
     (if index < length query then
        (case indexOf targetLower (searchString queryLower index) startAt of
           None \<Rightarrow> (0, mp)
         | Some i \<Rightarrow> score_loop target query targetLower queryLower (Suc index) (Suc i)
                      (sc + gain target query index startAt i) (mp @ [i]))
      else (sc, mp))"
  by (subst score_loop.simps) (simp only: sc4_gain Suc_eq_plus1)

lemma score_loop_Some:
  "greedy_positions targetLower (map (searchString queryLower) [index..<length query]) startAt
     = Some ps \<Longrightarrow>
   score_loop target query targetLower queryLower index startAt sc mp =
     (sc + gains target query index startAt ps, mp @ ps)"
proof (induction "length query - index" arbitrary: index startAt sc mp ps)
  case 0
  then show ?case by (subst score_loop_step) simp
next
  case (Suc n)
  then have lt: "index < length query" by simp
  then have d: "[index..<length query] = index # [Suc index..<length query]"
    by (simp add: upt_conv_Cons)
  from Suc.prems obtain i ps' where
    i: "indexOf targetLower (searchString queryLower index) startAt = Some i" and
    ps': "greedy_positions targetLower (map (searchString queryLower) [Suc index..<length query])
        (Suc i) = Some ps'" and
    ps: "ps = i # ps'"
    by (auto simp: d split: option.splits)
  have n: "n = length query - Suc index" using Suc.hyps(2) by simp
  show ?case
    using lt i Suc.hyps(1) [OF n ps'] by (subst score_loop_step) (simp add: ps)
qed

lemma score_loop_None:
  "greedy_positions targetLower (map (searchString queryLower) [index..<length query]) startAt
     = None \<Longrightarrow>
   fst (score_loop target query targetLower queryLower index startAt sc mp) = 0"
proof (induction "length query - index" arbitrary: index startAt sc mp)
  case 0
  then show ?case by simp
next
  case (Suc n)
  then have lt: "index < length query" by simp
  then have d: "[index..<length query] = index # [Suc index..<length query]"
    by (simp add: upt_conv_Cons)
  have n: "n = length query - Suc index" using Suc.hyps(2) by simp
  show ?case
  proof (cases "indexOf targetLower (searchString queryLower index) startAt")
    case None
    with lt show ?thesis by (subst score_loop_step) simp
  next
    case (Some i)
    with Suc.prems have
      "greedy_positions targetLower (map (searchString queryLower) [Suc index..<length query])
         (Suc i) = None"
      by (simp add: d)
    from Suc.hyps(1) [OF n this] lt Some show ?thesis
      by (subst score_loop_step) simp
  qed
qed

lemma greedy_positions_props:
  "\<forall>u \<in> set us. u \<noteq> [] \<Longrightarrow> greedy_positions t us s = Some ps \<Longrightarrow>
   length ps = length us \<and> sorted_wrt (<) ps \<and> (\<forall>p \<in> set ps. s \<le> p \<and> p < length t)"
proof (induction us arbitrary: s ps)
  case Nil
  then show ?case by simp
next
  case (Cons u us)
  then obtain i ps' where
    i: "indexOf t u s = Some i" and
    ps': "greedy_positions t us (Suc i) = Some ps'" and
    ps: "ps = i # ps'"
    by (auto split: option.splits)
  from Cons.prems(1) have u: "u \<noteq> []" and us: "\<forall>u \<in> set us. u \<noteq> []" by simp_all
  from Cons.IH [OF us ps'] indexOf_Some [OF u i] show ?case
    by (auto simp: ps)
qed

lemma greedy_query_props:
  assumes "greedy_positions t (query_searches lc query) s = Some ps"
  shows "length ps = length query" "sorted_wrt (<) ps" "\<forall>p \<in> set ps. s \<le> p \<and> p < length t"
proof -
  have "\<forall>u \<in> set (query_searches lc query). u \<noteq> []"
    by (auto simp: query_searches_def)
  from greedy_positions_props [OF this assms]
  show "length ps = length query" "sorted_wrt (<) ps" "\<forall>p \<in> set ps. s \<le> p \<and> p < length t"
    by (simp_all add: query_searches_def)
qed

lemma gain_ge_1: "1 \<le> gain target query index startAt i"
  by (simp add: gain_def)

lemma gain_le_14: "index > 0 \<Longrightarrow> 0 < i \<Longrightarrow> gain target query index startAt i \<le> 14"
  by (simp add: gain_def)

lemma gain_le_10: "gain target query 0 startAt i \<le> 10"
  by (simp add: gain_def)

lemma gains_ge: "int (length ps) \<le> gains target query index startAt ps"
proof (induction ps arbitrary: index startAt)
  case Nil
  then show ?case by simp
next
  case (Cons p ps)
  from Cons.IH [of "Suc index" "Suc p"] gain_ge_1 [of target query index startAt p]
  show ?case by simp
qed

lemma gains_sum:
  "gains target query index startAt ps =
     sum_list (map (\<lambda>k. gain target query (index + k)
                       (if k = 0 then startAt else Suc (ps ! (k - 1))) (ps ! k))
                [0..<length ps])"
proof (induction ps arbitrary: index startAt)
  case Nil
  then show ?case by simp
next
  case (Cons p ps)
  have "[0..<length (p # ps)] = 0 # map Suc [0..<length ps]"
    by (simp add: upt_conv_Cons map_Suc_upt del: upt_Suc)
  moreover have "\<And>x. Suc ((p # ps) ! x) = (if x = 0 then Suc p else Suc (ps ! (x - 1)))"
    by (simp add: nth_Cons')
  ultimately show ?case
    by (simp add: Cons.IH [of "Suc index" "Suc p"] comp_def del: upt_Suc)
qed

lemma spec_char_score_gain:
  "spec_char_score target query ps k =
     gain target query k (if k = 0 then 0 else Suc (ps ! (k - 1))) (ps ! k)"
  by (auto simp: spec_char_score_def gain_def)

lemma gains_spec_score:
  "length ps = length query \<Longrightarrow> gains target query 0 0 ps = spec_score target query ps"
  by (simp add: gains_sum spec_score_def spec_char_score_gain cong: map_cong)

lemma score_uncached_loop:
  "target \<noteq> [] \<Longrightarrow> query \<noteq> [] \<Longrightarrow> length query \<le> length target \<Longrightarrow>
   fst (score lc target query None) =
     (if 0 < fst (score_loop target query (lc target) (lc query) 0 0 0 [])
      then score_loop target query (lc target) (lc query) 0 0 0 [] else NO_SCORE)"
  by (cases "score_loop target query (lc target) (lc query) 0 0 0 []")
    (simp add: score_def Let_def)

lemma score_uncached_Some:
  assumes le: "length query \<le> length target"
    and g: "greedy_positions (lc target) (query_searches lc query) 0 = Some ps"
  shows "fst (score lc target query None) = (spec_score target query ps, ps)"
proof (cases "query = []")
  case True
  with g show ?thesis by (simp add: score_def NO_SCORE_def spec_score_def query_searches_def)
next
  case False
  from greedy_query_props(1) [OF g] have len: "length ps = length query" .
  from le False have t: "target \<noteq> []" by auto
  have loop: "score_loop target query (lc target) (lc query) 0 0 0 [] =
      (gains target query 0 0 ps, ps)"
    using score_loop_Some [where targetLower = "lc target" and queryLower = "lc query"
        and query = query and index = 0 and startAt = 0 and ps = ps and sc = 0 and mp = "[]"
        and target = target] g
    by (simp add: query_searches_def)
  have "0 < gains target query 0 0 ps"
    using gains_ge [where ps = ps and target = target and query = query and index = 0
        and startAt = 0] len False by (cases ps) auto
  with loop show ?thesis
    by (simp add: score_uncached_loop [OF t False le] gains_spec_score [OF len])
qed

lemma score_uncached_None:
  assumes g: "greedy_positions (lc target) (query_searches lc query) 0 = None"
  shows "fst (score lc target query None) = NO_SCORE"
proof (cases "target \<noteq> [] \<and> query \<noteq> [] \<and> length query \<le> length target")
  case False
  then show ?thesis by (auto simp: score_def)
next
  case True
  have "fst (score_loop target query (lc target) (lc query) 0 0 0 []) = 0"
    using score_loop_None [where targetLower = "lc target" and queryLower = "lc query"
        and query = query and index = 0 and startAt = 0 and sc = 0 and mp = "[]"
        and target = target] g
    by (simp add: query_searches_def)
  with True show ?thesis by (simp add: score_uncached_loop)
qed

lemma score_sentinel_iff_aux:
   "fst (score lc target query None) = NO_SCORE \<longleftrightarrow>
      (target = [] \<or> query = [] \<or> length target < length query \<or>
       greedy_positions (lc target) (query_searches lc query) 0 = None)"
proof (cases "greedy_positions (lc target) (query_searches lc query) 0")
  case None
  then show ?thesis by (simp add: score_uncached_None)
next
  case (Some ps)
  from greedy_query_props(1) [OF Some] have len: "length ps = length query" .
  show ?thesis
  proof (cases "target = [] \<or> query = [] \<or> length target < length query")
    case True
    then show ?thesis by (auto simp: score_def)
  next
    case False
    with len have "ps \<noteq> []" by auto
    moreover from False have "length query \<le> length target" by simp
    ultimately show ?thesis
      using Some False by (simp add: score_uncached_Some NO_SCORE_def)
  qed
qed





subsection \<open>The cache\<close>

lemma score_early:
  "target = [] \<or> query = [] \<or> length target < length query \<Longrightarrow>
   score lc target query cache = (NO_SCORE, cache)"
  by (auto simp: score_def)

lemma score_hit:
  "target \<noteq> [] \<Longrightarrow> query \<noteq> [] \<Longrightarrow> length query \<le> length target \<Longrightarrow>
   c (target @ query) = Some v \<Longrightarrow> score lc target query (Some c) = (v, Some c)"
  by (simp add: score_def)

lemma score_miss:
  "target \<noteq> [] \<Longrightarrow> query \<noteq> [] \<Longrightarrow> length query \<le> length target \<Longrightarrow>
   c (target @ query) = None \<Longrightarrow>
   score lc target query (Some c) =
     (fst (score lc target query None),
      Some (c(target @ query \<mapsto> fst (score lc target query None))))"
  by (simp add: score_def Let_def split: prod.splits)

lemma score_keeps_cache:
  "\<exists>c'. snd (score lc target query (Some c)) = Some c'"
  by (auto simp: score_def Let_def split: prod.splits option.splits)

lemma reaches_cache_iff:
  "reaches_cache (t, q) \<longleftrightarrow> t \<noteq> [] \<and> q \<noteq> [] \<and> length q \<le> length t"
  by (simp add: reaches_cache_def)

lemma score_cache_keys:
  "cache_keys (snd (score lc t q (Some c))) =
     dom c \<union> (if reaches_cache (t, q) then {t @ q} else {})"
proof (cases "reaches_cache (t, q)")
  case False
  then have "score lc t q (Some c) = (NO_SCORE, Some c)"
    by (intro score_early) (auto simp: reaches_cache_iff)
  with False show ?thesis by (simp add: cache_keys_def)
next
  case True
  then have r: "t \<noteq> []" "q \<noteq> []" "length q \<le> length t" by (simp_all add: reaches_cache_iff)
  show ?thesis
  proof (cases "c (t @ q)")
    case None
    from score_miss [of t q c lc, OF r None] True show ?thesis by (simp add: cache_keys_def)
  next
    case (Some v)
    from score_hit [of t q c v lc, OF r Some] True Some show ?thesis
      by (auto simp: cache_keys_def)
  qed
qed

lemma run_scores_keeps_cache:
  "\<exists>c'. run_scores lc calls (Some c) = Some c'"
proof (induction calls arbitrary: c)
  case Nil
  then show ?case by simp
next
  case (Cons call calls)
  obtain t q where call: "call = (t, q)" by (cases call)
  from score_keeps_cache [of lc t q c] obtain c1 where "snd (score lc t q (Some c)) = Some c1" ..
  with Cons.IH [of c1] call show ?case by simp
qed

lemma run_scores_keys:
  "cache_keys (run_scores lc calls (Some c)) =
     dom c \<union> call_key ` {call \<in> set calls. reaches_cache call}"
proof (induction calls arbitrary: c)
  case Nil
  then show ?case by (simp add: cache_keys_def)
next
  case (Cons call calls)
  obtain t q where call: "call = (t, q)" by (cases call)
  from score_keeps_cache [of lc t q c] obtain c1 where
    c1: "snd (score lc t q (Some c)) = Some c1" ..
  have "dom c1 = dom c \<union> (if reaches_cache (t, q) then {t @ q} else {})"
    using score_cache_keys [of lc t q c] c1 by (simp add: cache_keys_def)
  moreover have "{x \<in> set (call # calls). reaches_cache x} =
      (if reaches_cache (t, q) then {(t, q)} else {}) \<union> {x \<in> set calls. reaches_cache x}"
    using call by auto
  then have "call_key ` {x \<in> set (call # calls). reaches_cache x} =
      (if reaches_cache (t, q) then {t @ q} else {}) \<union> call_key ` {x \<in> set calls. reaches_cache x}"
    by (simp add: call_key_def image_Un)
  moreover have "run_scores lc (call # calls) (Some c) = run_scores lc calls (Some c1)"
    using call c1 by simp
  ultimately show ?case
    using Cons.IH [of c1] by (simp only: Un_assoc)
qed

lemma cache_soundD:
  "cache_sound lc S c \<Longrightarrow> c k = Some v \<Longrightarrow>
   \<exists>call \<in> S. call_key call = k \<and> v = fst (score lc (fst call) (snd call) None)"
  unfolding cache_sound_def by blast

lemma cache_sound_mono: "cache_sound lc S c \<Longrightarrow> S \<subseteq> S' \<Longrightarrow> cache_sound lc S' c"
  unfolding cache_sound_def by blast

lemma score_sound:
  assumes "cache_sound lc S c" and "snd (score lc t q (Some c)) = Some c'"
  shows "cache_sound lc (insert (t, q) S) c'"
proof (cases "reaches_cache (t, q)")
  case False
  then have "score lc t q (Some c) = (NO_SCORE, Some c)"
    by (intro score_early) (auto simp: reaches_cache_iff)
  with assms have "c' = c" by simp
  with assms(1) show ?thesis by (blast intro: cache_sound_mono)
next
  case True
  then have r: "t \<noteq> []" "q \<noteq> []" "length q \<le> length t" by (simp_all add: reaches_cache_iff)
  show ?thesis
  proof (cases "c (t @ q)")
    case None
    from score_miss [of t q c lc, OF r None] assms(2)
    have c': "c' = c(t @ q \<mapsto> fst (score lc t q None))" by simp
    show ?thesis
      unfolding cache_sound_def
    proof (intro allI impI)
      fix k v
      assume kv: "c' k = Some v"
      show "\<exists>call \<in> insert (t, q) S. call_key call = k \<and>
          v = fst (score lc (fst call) (snd call) None)"
      proof (cases "k = t @ q")
        case True
        with kv c' show ?thesis by (auto simp: call_key_def)
      next
        case False
        with kv c' have "c k = Some v" by simp
        from cache_soundD [OF assms(1) this] show ?thesis by blast
      qed
    qed
  next
    case (Some v)
    from score_hit [of t q c v lc, OF r Some] assms(2) have "c' = c" by simp
    with assms(1) show ?thesis by (blast intro: cache_sound_mono)
  qed
qed

lemma run_scores_sound:
  assumes "cache_sound lc S c" and "run_scores lc calls (Some c) = Some c'"
  shows "cache_sound lc (S \<union> set calls) c'"
  using assms
proof (induction calls arbitrary: S c)
  case Nil
  then show ?case by simp
next
  case (Cons call calls)
  obtain t q where call: "call = (t, q)" by (cases call)
  from score_keeps_cache [of lc t q c] obtain c1 where
    c1: "snd (score lc t q (Some c)) = Some c1" ..
  from score_sound [OF Cons.prems(1) c1] have s1: "cache_sound lc (insert (t, q) S) c1" .
  from Cons.prems(2) call c1 have "run_scores lc calls (Some c1) = Some c'" by simp
  from Cons.IH [OF s1 this] call show ?case by simp
qed

lemma score_sound_eq:
  assumes s: "cache_sound lc S c"
    and n: "\<forall>call \<in> S. call_key call = target @ query \<longrightarrow> call = (target, query)"
  shows "fst (score lc target query (Some c)) = fst (score lc target query None)"
proof (cases "reaches_cache (target, query)")
  case False
  then have "target = [] \<or> query = [] \<or> length target < length query"
    by (auto simp: reaches_cache_iff)
  then show ?thesis by (simp add: score_early)
next
  case True
  then have r: "target \<noteq> []" "query \<noteq> []" "length query \<le> length target"
    by (simp_all add: reaches_cache_iff)
  show ?thesis
  proof (cases "c (target @ query)")
    case None
    from score_miss [of target query c lc, OF r None] show ?thesis by simp
  next
    case (Some v)
    from cache_soundD [OF s Some] obtain call where call: "call \<in> S"
        "call_key call = target @ query" "v = fst (score lc (fst call) (snd call) None)"
      by blast
    with n have "call = (target, query)" by blast
    with call score_hit [of target query c v lc, OF r Some] show ?thesis by simp
  qed
qed

lemma run_scores_transparent:
  assumes "no_collision calls target query"
  shows "fst (score lc target query (run_scores lc calls empty_cache)) =
    fst (score lc target query None)"
proof -
  from run_scores_keeps_cache [of lc calls Map.empty] obtain c' where
    c': "run_scores lc calls (Some Map.empty) = Some c'" ..
  have "cache_sound lc {} Map.empty" by (simp add: cache_sound_def)
  from run_scores_sound [OF this c'] have "cache_sound lc (set calls) c'" by simp
  from score_sound_eq [OF this] assms c' show ?thesis
    by (simp add: no_collision_def empty_cache_def)
qed

lemma score_uncached_ok:
  "score_ok (length (lc target)) query (fst (score lc target query None))"
proof (cases "fst (score lc target query None) = NO_SCORE")
  case True
  then show ?thesis by (simp add: score_ok_def NO_SCORE_def)
next
  case False
  then have r: "target \<noteq> []" "query \<noteq> []" "length query \<le> length target"
    and "greedy_positions (lc target) (query_searches lc query) 0 \<noteq> None"
    using score_sentinel_iff_aux [of lc target query] by auto
  then obtain ps where g: "greedy_positions (lc target) (query_searches lc query) 0 = Some ps"
    by auto
  from greedy_query_props [OF g] have
    "length ps = length query" "sorted_wrt (<) ps" "\<forall>p \<in> set ps. p < length (lc target)"
    by simp_all
  moreover have "int (length ps) \<le> spec_score target query ps"
    using gains_ge [where ps = ps and target = target and query = query and index = 0
        and startAt = 0] gains_spec_score [OF \<open>length ps = length query\<close>] by simp
  ultimately show ?thesis
    by (auto simp: score_uncached_Some [OF r(3) g] score_ok_def)
qed

text \<open>
  C7, as the code has it. The key of the cache is the plain concatenation
  \<^verbatim>\<open>target + query\<close>, so two pairs with the same concatenation share one entry: after
  \<^verbatim>\<open>score("abc", "a", cache)\<close> the call \<^verbatim>\<open>score("ab", "ca", cache)\<close> returns the
  score stored for the first pair, while without a cache it returns the sentinel.
\<close>

theorem cache_collision_counterexample:
  "fst (score toLowerCaseSample (js ''ab'') (js ''ca'')
         (run_scores toLowerCaseSample [(js ''abc'', js ''a'')] empty_cache)) \<noteq>
   fst (score toLowerCaseSample (js ''ab'') (js ''ca'') None)"
  by code_simp

text \<open>
  C7, amended. For every lower-casing function and a cache filled from empty by earlier
  calls of \<^const>\<open>score\<close>, none of which had another pair with the concatenation of
  \<open>target\<close> and \<open>query\<close>, the call with the cache returns the score that the call without
  a cache returns. A hit returns the stored value as it is and leaves the cache as it was.
\<close>

theorem cache_transparent:
  "(no_collision calls target query \<longrightarrow>
      fst (score toLowerCase target query (run_scores toLowerCase calls empty_cache)) =
      fst (score toLowerCase target query None)) \<and>
   (reaches_cache (target, query) \<and> c (target @ query) = Some v \<longrightarrow>
      score toLowerCase target query (Some c) = (v, Some c))"
  using run_scores_transparent [of calls target query toLowerCase]
    score_hit [of target query c v toLowerCase]
  by (simp add: reaches_cache_iff)

theorem cache_transparent_witness:
  "no_collision [(js ''target'', js ''query''), (js ''target'', js ''t'')] (js ''target'') (js ''t'') \<and>
   fst (score toLowerCaseSample (js ''target'') (js ''t'')
          (run_scores toLowerCaseSample [(js ''target'', js ''query''), (js ''target'', js ''t'')]
             empty_cache))
     = fst (score toLowerCaseSample (js ''target'') (js ''t'') None) \<and>
   reaches_cache (js ''target'', js ''t'') \<and>
   score toLowerCaseSample (js ''target'') (js ''t'') (Some [js ''targett'' \<mapsto> (10, [0])]) =
     ((10, [0]), Some [js ''targett'' \<mapsto> (10, [0])])"
proof -
  have n: "no_collision [(js ''target'', js ''query''), (js ''target'', js ''t'')]
      (js ''target'') (js ''t'')"
    by (simp add: no_collision_def call_key_def js_def)
  have r: "reaches_cache (js ''target'', js ''t'')"
    by (simp add: reaches_cache_def js_def)
  have h: "[js ''targett'' \<mapsto> (10::int, [0::nat])] (js ''target'' @ js ''t'') = Some (10, [0])"
    by (simp add: js_def)
  from n r h
    cache_transparent [of "[(js ''target'', js ''query''), (js ''target'', js ''t'')]"
      "js ''target''" "js ''t''" toLowerCaseSample "[js ''targett'' \<mapsto> (10, [0])]" "(10, [0])"]
  show ?thesis by simp
qed

text \<open>
  C8, as the code has it. A call that leaves at one of the two early returns writes no
  entry: after the one call \<^verbatim>\<open>score("", "query", cache)\<close> the cache is still empty.
\<close>

theorem cache_entries_counterexample:
  "card (cache_keys (run_scores toLowerCaseSample [([], js ''query'')] empty_cache)) \<noteq>
   card (set [([] :: jsstring, js ''query'')])"
  by (simp add: score_def empty_cache_def cache_keys_def)

text \<open>
  C8, amended. For every lower-casing function, two calls of \<^const>\<open>score\<close> with the same
  arguments and the same cache return the same score, and the second leaves the cache as
  the first left it. After a sequence of calls the cache holds, besides what it held
  before, exactly one entry for each distinct key \<^verbatim>\<open>target + query\<close> among the calls
  with a non-empty target, a non-empty query and a target at least as long as the query.
\<close>

theorem cache_twice_and_entries:
  "fst (score toLowerCase target query (snd (score toLowerCase target query (Some c)))) =
     fst (score toLowerCase target query (Some c)) \<and>
   snd (score toLowerCase target query (snd (score toLowerCase target query (Some c)))) =
     snd (score toLowerCase target query (Some c)) \<and>
   cache_keys (run_scores toLowerCase calls (Some c)) =
     dom c \<union> call_key ` {call \<in> set calls. reaches_cache call}"
proof -
  have twice: "score toLowerCase target query (snd (score toLowerCase target query (Some c))) =
      score toLowerCase target query (Some c)"
  proof (cases "reaches_cache (target, query)")
    case False
    then have "target = [] \<or> query = [] \<or> length target < length query"
      by (auto simp: reaches_cache_iff)
    then show ?thesis by (simp add: score_early)
  next
    case True
    then have r: "target \<noteq> []" "query \<noteq> []" "length query \<le> length target"
      by (simp_all add: reaches_cache_iff)
    show ?thesis
    proof (cases "c (target @ query)")
      case None
      let ?v = "fst (score toLowerCase target query None)"
      have 1: "score toLowerCase target query (Some c) = (?v, Some (c(target @ query \<mapsto> ?v)))"
        by (rule score_miss [of target query c toLowerCase, OF r None])
      have "(c(target @ query \<mapsto> ?v)) (target @ query) = Some ?v" by simp
      from score_hit [of target query "c(target @ query \<mapsto> ?v)" ?v toLowerCase, OF r this] 1
      show ?thesis by simp
    next
      case (Some v)
      from score_hit [of target query c v toLowerCase, OF r Some] show ?thesis by simp
    qed
  qed
  then show ?thesis by (simp add: run_scores_keys)
qed

theorem cache_twice_and_entries_witness:
  "fst (score toLowerCaseSample (js ''target'') (js ''t'')
          (snd (score toLowerCaseSample (js ''target'') (js ''t'') empty_cache))) = (10, [0]) \<and>
   cache_keys (run_scores toLowerCaseSample
       [(js ''target'', js ''query''), (js ''target'', js ''t''), ([], js ''query'')] empty_cache)
     = {js ''targetquery'', js ''targett''}"
proof -
  have a: "fst (score toLowerCaseSample (js ''target'') (js ''t'') empty_cache) = (10, [0])"
    by code_simp
  have b: "call_key ` {call \<in> set [(js ''target'', js ''query''), (js ''target'', js ''t''),
      ([], js ''query'')]. reaches_cache call} = {js ''targetquery'', js ''targett''}"
    unfolding set_filter [symmetric] by (simp add: reaches_cache_def call_key_def js_def)
  from a b
    cache_twice_and_entries [of toLowerCaseSample "js ''target''" "js ''t''" Map.empty
      "[(js ''target'', js ''query''), (js ''target'', js ''t''), ([], js ''query'')]"]
  show ?thesis by (simp add: empty_cache_def)
qed

text \<open>
  C9, as the code has it. On a hit the stored score comes back as it is, also when it
  was stored for another pair with the same concatenation: after
  \<^verbatim>\<open>score("abc", "a", cache)\<close> the call \<^verbatim>\<open>score("ab", "ca", cache)\<close> returns a positive
  score with one position for a query of two characters. And the positions are indices
  into the lower-cased target: for the target U+0130 \<^verbatim>\<open>a\<close> of two code units, whose
  lower-casing has three, the query \<^verbatim>\<open>a\<close> is found at index 2, past the end of the
  target.
\<close>

theorem score_ok_counterexample:
  "\<not> score_ok (length (js ''ab'')) (js ''ca'')
       (fst (score toLowerCaseSample (js ''ab'') (js ''ca'')
              (run_scores toLowerCaseSample [(js ''abc'', js ''a'')] empty_cache))) \<and>
   fst (score toLowerCaseSample [0x130, 0x61] [0x61] None) = (1, [2]) \<and>
   \<not> score_ok (length [0x130, 0x61 :: code_unit]) [0x61]
       (fst (score toLowerCaseSample [0x130, 0x61] [0x61] None))"
  by code_simp

text \<open>
  C9, amended. For every lower-casing function, a score returned by \<^const>\<open>score\<close>
  without a cache, or with a cache filled from empty by earlier calls none of which had
  another pair with the same concatenation, is not negative; when it is positive its
  positions are strictly ascending, one for each query character, each an index into the
  lower-cased target, and so into the target when lower-casing keeps the length of the
  target; when it is 0 there are no positions.
\<close>

theorem score_result_ok:
  "score_ok (length (toLowerCase target)) query (fst (score toLowerCase target query None)) \<and>
   (no_collision calls target query \<longrightarrow>
      score_ok (length (toLowerCase target)) query
        (fst (score toLowerCase target query (run_scores toLowerCase calls empty_cache)))) \<and>
   (length (toLowerCase target) = length target \<longrightarrow>
      score_ok (length target) query (fst (score toLowerCase target query None)) \<and>
      (no_collision calls target query \<longrightarrow>
         score_ok (length target) query
           (fst (score toLowerCase target query (run_scores toLowerCase calls empty_cache)))))"
  using score_uncached_ok [of toLowerCase target query]
    run_scores_transparent [of calls target query toLowerCase]
  by auto

theorem score_result_ok_witness:
  "score_ok (length (js ''HeLlo-World'')) (js ''HW'') (19, [0, 6]) \<and>
   length (toLowerCaseSample (js ''HeLlo-World'')) = length (js ''HeLlo-World'') \<and>
   no_collision [(js ''HeLlo-World'', js ''H'')] (js ''HeLlo-World'') (js ''HW'') \<and>
   score_ok (length (js ''HeLlo-World'')) (js ''HW'')
     (fst (score toLowerCaseSample (js ''HeLlo-World'') (js ''HW'')
            (run_scores toLowerCaseSample [(js ''HeLlo-World'', js ''H'')] empty_cache)))"
proof -
  have v: "fst (score toLowerCaseSample (js ''HeLlo-World'') (js ''HW'') None) = (19, [0, 6])"
    by code_simp
  have l: "length (toLowerCaseSample (js ''HeLlo-World'')) = length (js ''HeLlo-World'')"
    by code_simp
  have n: "no_collision [(js ''HeLlo-World'', js ''H'')] (js ''HeLlo-World'') (js ''HW'')"
    by (simp add: no_collision_def call_key_def js_def)
  from v l n
    score_result_ok [of toLowerCaseSample "js ''HeLlo-World''" "js ''HW''"
      "[(js ''HeLlo-World'', js ''H'')]"]
  show ?thesis by simp
qed

text \<open>
  C10, as the code has it. The lookup of line 360 comes before the search: when the
  cache already holds an entry under the key, \<^const>\<open>score\<close> returns it and writes nothing.
  After \<^verbatim>\<open>score("abc", "a", cache)\<close> the failing pair \<^verbatim>\<open>("ab", "ca")\<close> finds the entry of
  the first pair under \<^verbatim>\<open>"abca"\<close>, and the entry stays.
\<close>

theorem failed_search_counterexample:
  "reaches_cache (js ''ab'', js ''ca'') \<and>
   greedy_positions (toLowerCaseSample (js ''ab'')) (query_searches toLowerCaseSample (js ''ca'')) 0
     = None \<and>
   cache_lookup (snd (score toLowerCaseSample (js ''ab'') (js ''ca'')
       (run_scores toLowerCaseSample [(js ''abc'', js ''a'')] empty_cache))) (js ''abca'')
     \<noteq> Some NO_SCORE"
  by code_simp

text \<open>
  C10, amended. For every lower-casing function: when target and query are not empty, the
  target is at least as long as the query, the greedy search for the lower-cased query in
  the lower-cased target fails and the cache holds no entry under \<^verbatim>\<open>target + query\<close>,
  \<^const>\<open>score\<close> returns the sentinel and stores it under that key. When lower-casing keeps
  the length of the query, the search fails exactly when the lower-cased query is not a
  subsequence of the lower-cased target. When the target or the query is empty, or the
  target is shorter than the query, \<^const>\<open>score\<close> returns the sentinel and the cache is
  as it was.
\<close>

theorem failed_search_cached:
  "(reaches_cache (target, query) \<and>
    greedy_positions (toLowerCase target) (query_searches toLowerCase query) 0 = None \<and>
    c (target @ query) = None \<longrightarrow>
      score toLowerCase target query (Some c) =
        (NO_SCORE, Some (c(target @ query \<mapsto> NO_SCORE)))) \<and>
   (reaches_cache (target, query) \<and> length (toLowerCase query) = length query \<and>
    \<not> subseq (toLowerCase query) (toLowerCase target) \<and> c (target @ query) = None \<longrightarrow>
      score toLowerCase target query (Some c) =
        (NO_SCORE, Some (c(target @ query \<mapsto> NO_SCORE)))) \<and>
   (\<not> reaches_cache (target, query) \<longrightarrow> score toLowerCase target query cache = (NO_SCORE, cache))"
proof -
  have 1: "score toLowerCase target query (Some c) =
      (NO_SCORE, Some (c(target @ query \<mapsto> NO_SCORE)))"
    if r: "reaches_cache (target, query)"
      and g: "greedy_positions (toLowerCase target) (query_searches toLowerCase query) 0 = None"
      and m: "c (target @ query) = None"
  proof -
    from g have "fst (score toLowerCase target query None) = NO_SCORE"
      by (rule score_uncached_None)
    with score_miss [of target query c toLowerCase] r m show ?thesis
      by (simp add: reaches_cache_iff)
  qed
  have 2: "greedy_positions (toLowerCase target) (query_searches toLowerCase query) 0 = None"
    if "length (toLowerCase query) = length query"
      and "\<not> subseq (toLowerCase query) (toLowerCase target)"
    using that greedy_query_None_iff [of toLowerCase query target] by simp
  have 3: "score toLowerCase target query cache = (NO_SCORE, cache)"
    if "\<not> reaches_cache (target, query)"
    using that by (intro score_early) (auto simp: reaches_cache_iff)
  show ?thesis
  proof (intro conjI impI)
    assume "reaches_cache (target, query) \<and>
      greedy_positions (toLowerCase target) (query_searches toLowerCase query) 0 = None \<and>
      c (target @ query) = None"
    then show "score toLowerCase target query (Some c) =
        (NO_SCORE, Some (c(target @ query \<mapsto> NO_SCORE)))"
      using 1 by (elim conjE)
  next
    assume a: "reaches_cache (target, query) \<and> length (toLowerCase query) = length query \<and>
      \<not> subseq (toLowerCase query) (toLowerCase target) \<and> c (target @ query) = None"
    then have "greedy_positions (toLowerCase target) (query_searches toLowerCase query) 0 = None"
      using 2 by (elim conjE)
    with a show "score toLowerCase target query (Some c) =
        (NO_SCORE, Some (c(target @ query \<mapsto> NO_SCORE)))"
      using 1 by (elim conjE)
  next
    assume "\<not> reaches_cache (target, query)"
    then show "score toLowerCase target query cache = (NO_SCORE, cache)" by (rule 3)
  qed
qed

theorem failed_search_cached_witness:
  "reaches_cache (js ''target'', js ''query'') \<and>
   length (toLowerCaseSample (js ''query'')) = length (js ''query'') \<and>
   \<not> subseq (toLowerCaseSample (js ''query'')) (toLowerCaseSample (js ''target'')) \<and>
   greedy_positions (toLowerCaseSample (js ''target'')) (query_searches toLowerCaseSample (js ''query'')) 0
     = None \<and>
   score toLowerCaseSample (js ''target'') (js ''query'') (Some Map.empty) =
     (NO_SCORE, Some [js ''target'' @ js ''query'' \<mapsto> NO_SCORE]) \<and>
   \<not> reaches_cache (js ''t'', js ''query'') \<and>
   score toLowerCaseSample (js ''t'') (js ''query'') (Some Map.empty) = (NO_SCORE, Some Map.empty)"
proof -
  have r: "reaches_cache (js ''target'', js ''query'')" "\<not> reaches_cache (js ''t'', js ''query'')"
    by (simp_all add: reaches_cache_def js_def)
  have l: "length (toLowerCaseSample (js ''query'')) = length (js ''query'')"
    by code_simp
  have g: "greedy_positions (toLowerCaseSample (js ''target''))
      (query_searches toLowerCaseSample (js ''query'')) 0 = None"
    by code_simp
  then have n: "\<not> subseq (toLowerCaseSample (js ''query'')) (toLowerCaseSample (js ''target''))"
    using greedy_query_None_iff [of toLowerCaseSample "js ''query''" "js ''target''", OF l] by simp
  from r l g n
    failed_search_cached [of "js ''target''" "js ''query''" toLowerCaseSample Map.empty]
    failed_search_cached [of "js ''t''" "js ''query''" toLowerCaseSample Map.empty "Some Map.empty"]
  show ?thesis by simp
qed

subsection \<open>Files\<close>

subsection \<open>Files\<close>

lemma score_None_cache [simp]: "snd (score lc target query None) = None"
  by (simp add: score_def Let_def split: prod.splits)

lemma score_None_eq: "score lc target query None = (fst (score lc target query None), None)"
  by (simp add: prod_eq_iff)

lemma constants [simp]:
  "PATH_IDENTITY_SCORE = 262144" "BASENAME_PREFIX_SCORE = 131072" "BASENAME_SCORE_THRESHOLD = 65536"
  by (simp_all add: PATH_IDENTITY_SCORE_def BASENAME_PREFIX_SCORE_def BASENAME_SCORE_THRESHOLD_def)

lemma scoreFile_None_cache [simp]: "snd (scoreFile lc file accessor query None) = None"
proof -
  obtain s1 p1 where 1: "score lc (getBasename accessor file) query None = ((s1, p1), None)"
    using score_None_eq [of lc "getBasename accessor file" query]
    by (cases "fst (score lc (getBasename accessor file) query None)") auto
  obtain s2 p2 where 2: "score lc (getPath accessor file) query None = ((s2, p2), None)"
    using score_None_eq [of lc "getPath accessor file" query]
    by (cases "fst (score lc (getPath accessor file) query None)") auto
  show ?thesis
    by (simp add: scoreFile_def Let_def 1 2 split: option.split)
qed

lemma compare_cascade:
  assumes "scoreA = file_score (fst (scoreFile lc fileA accessor query None))"
    and "scoreB = file_score (fst (scoreFile lc fileB accessor query None))"
    and "basenameA = getBasename accessor fileA" and "basenameB = getBasename accessor fileB"
    and "pathA = getPath accessor fileA" and "pathB = getPath accessor fileB"
  shows "fst (compareFilesByScore lc compareAnything fileA fileB accessor query None) =
    (if (scoreA = PATH_IDENTITY_SCORE \<or> scoreB = PATH_IDENTITY_SCORE) \<and> scoreA \<noteq> scoreB
       then (if scoreA = PATH_IDENTITY_SCORE then - 1 else 1)
     else if (scoreA = BASENAME_PREFIX_SCORE \<or> scoreB = BASENAME_PREFIX_SCORE) \<and> scoreA \<noteq> scoreB
       then (if scoreA = BASENAME_PREFIX_SCORE then - 1 else 1)
     else if (scoreA = BASENAME_PREFIX_SCORE \<or> scoreB = BASENAME_PREFIX_SCORE)
             \<and> length basenameA \<noteq> length basenameB
       then int (length basenameA) - int (length basenameB)
     else if (scoreA > BASENAME_SCORE_THRESHOLD \<or> scoreB > BASENAME_SCORE_THRESHOLD)
             \<and> scoreB < BASENAME_SCORE_THRESHOLD
       then - 1
     else if (scoreA > BASENAME_SCORE_THRESHOLD \<or> scoreB > BASENAME_SCORE_THRESHOLD)
             \<and> scoreA < BASENAME_SCORE_THRESHOLD
       then 1
     else if scoreA \<noteq> scoreB
       then (if scoreA > scoreB then - 1 else 1)
     else if length basenameA \<noteq> length basenameB
       then int (length basenameA) - int (length basenameB)
     else if length pathA \<noteq> length pathB
       then int (length pathA) - int (length pathB)
     else if basenameA \<noteq> basenameB
       then compareAnything basenameA basenameB query
     else compareAnything pathA pathB query)"
proof -
  obtain rA where a: "scoreFile lc fileA accessor query None = (rA, None)"
    using scoreFile_None_cache [of lc fileA accessor query]
    by (cases "scoreFile lc fileA accessor query None") simp
  obtain rB where b: "scoreFile lc fileB accessor query None = (rB, None)"
    using scoreFile_None_cache [of lc fileB accessor query]
    by (cases "scoreFile lc fileB accessor query None") simp
  show ?thesis
    unfolding compareFilesByScore_def assms a b Let_def prod.case fst_conv
    by (rule refl)
qed

lemma compare_neg_iff:
  assumes ok: "comparator_ok cmp q"
  shows "compareFiles lc cmp acc q a b < 0 \<longleftrightarrow> key_less cmp q (file_key lc acc q a) (file_key lc acc q b)"
  unfolding compareFiles_def compare_cascade [OF refl refl refl refl refl refl]
    key_less_def file_key_def score_rank_def
  by (simp split: if_splits)

lemma comparator_okD:
  assumes "comparator_ok cmp q"
  shows "cmp x y q < 0 \<longleftrightarrow> 0 < cmp y x q"
    and "cmp x y q = 0 \<longleftrightarrow> x = y"
    and "cmp x y q < 0 \<Longrightarrow> cmp y z q < 0 \<Longrightarrow> cmp x z q < 0"
  using assms unfolding comparator_ok_def by blast+

lemma compare_pos_iff:
  assumes ok: "comparator_ok cmp q"
  shows "0 < compareFiles lc cmp acc q a b \<longleftrightarrow> key_less cmp q (file_key lc acc q b) (file_key lc acc q a)"
  unfolding compareFiles_def compare_cascade [OF refl refl refl refl refl refl]
    key_less_def file_key_def score_rank_def
  using comparator_okD(1) [OF ok]
  by (simp split: if_splits)

lemma key_less_irrefl:
  assumes ok: "comparator_ok cmp q"
  shows "\<not> key_less cmp q k k"
  using comparator_okD(2) [OF ok, of "snd (snd k)" "snd (snd k)"]
  by (cases k) (simp add: key_less_def)

lemma key_less_total:
  assumes ok: "comparator_ok cmp q"
    and "\<not> key_less cmp q k1 k2" and "\<not> key_less cmp q k2 k1"
  shows "k1 = k2"
proof -
  obtain s1 b1 p1 where k1: "k1 = (s1, b1, p1)" by (cases k1)
  obtain s2 b2 p2 where k2: "k2 = (s2, b2, p2)" by (cases k2)
  from assms(2,3) have r: "score_rank s1 = score_rank s2" and s: "s1 = s2"
    and lb: "length b1 = length b2" and lp: "length p1 = length p2"
    by (auto simp: k1 k2 key_less_def)
  have b: "b1 = b2"
  proof (rule ccontr)
    assume "b1 \<noteq> b2"
    with assms(2,3) r s lb lp have "\<not> cmp b1 b2 q < 0" "\<not> cmp b2 b1 q < 0"
      by (auto simp: k1 k2 key_less_def)
    with comparator_okD(1) [OF ok, of b2 b1] have "cmp b1 b2 q = 0" by linarith
    with comparator_okD(2) [OF ok, of b1 b2] \<open>b1 \<noteq> b2\<close> show False by simp
  qed
  have "p1 = p2"
  proof -
    from assms(2,3) r s lb lp b have "\<not> cmp p1 p2 q < 0" "\<not> cmp p2 p1 q < 0"
      by (auto simp: k1 k2 key_less_def)
    with comparator_okD(1) [OF ok, of p2 p1] have "cmp p1 p2 q = 0" by linarith
    with comparator_okD(2) [OF ok, of p1 p2] show ?thesis by simp
  qed
  with s b show ?thesis by (simp add: k1 k2)
qed

lemma key_less_trans:
  assumes ok: "comparator_ok cmp q"
    and 12: "key_less cmp q k1 k2" and 23: "key_less cmp q k2 k3"
  shows "key_less cmp q k1 k3"
proof -
  obtain s1 b1 p1 where k1: "k1 = (s1, b1, p1)" by (cases k1)
  obtain s2 b2 p2 where k2: "k2 = (s2, b2, p2)" by (cases k2)
  obtain s3 b3 p3 where k3: "k3 = (s3, b3, p3)" by (cases k3)
  let ?last = "\<lambda>b p b' p'. if b \<noteq> b' then cmp b b' q < 0 else cmp p p' q < 0"
  have last: "?last b1 p1 b3 p3" if a: "?last b1 p1 b2 p2" and b: "?last b2 p2 b3 p3"
  proof (cases "b1 = b2")
    case True
    show ?thesis
    proof (cases "b2 = b3")
      case True
      with \<open>b1 = b2\<close> a b comparator_okD(3) [OF ok, of p1 p2 p3] show ?thesis by simp
    next
      case False
      with \<open>b1 = b2\<close> a b show ?thesis by simp
    qed
  next
    case False
    show ?thesis
    proof (cases "b2 = b3")
      case True
      with \<open>b1 \<noteq> b2\<close> a b show ?thesis by simp
    next
      case False
      with \<open>b1 \<noteq> b2\<close> a b have c: "cmp b1 b3 q < 0"
        using comparator_okD(3) [OF ok, of b1 b2 b3] by simp
      with comparator_okD(2) [OF ok, of b1 b3] have "b1 \<noteq> b3" by auto
      with c show ?thesis by simp
    qed
  qed
  define l12 where "l12 = ?last b1 p1 b2 p2"
  define l23 where "l23 = ?last b2 p2 b3 p3"
  define l13 where "l13 = ?last b1 p1 b3 p3"
  define r1 where "r1 = score_rank s1"
  define r2 where "r2 = score_rank s2"
  define r3 where "r3 = score_rank s3"
  have l: "l12 \<Longrightarrow> l23 \<Longrightarrow> l13"
    using last unfolding l12_def l23_def l13_def by blast
  have A: "r1 < r2 \<or> r1 = r2 \<and> (s2 < s1 \<or> s1 = s2 \<and> (length b1 < length b2 \<or>
      length b1 = length b2 \<and> (length p1 < length p2 \<or> length p1 = length p2 \<and> l12)))"
    using 12 unfolding k1 k2 key_less_def prod.case l12_def r1_def r2_def .
  have B: "r2 < r3 \<or> r2 = r3 \<and> (s3 < s2 \<or> s2 = s3 \<and> (length b2 < length b3 \<or>
      length b2 = length b3 \<and> (length p2 < length p3 \<or> length p2 = length p3 \<and> l23)))"
    using 23 unfolding k2 k3 key_less_def prod.case l23_def r2_def r3_def .
  have "r1 < r3 \<or> r1 = r3 \<and> (s3 < s1 \<or> s1 = s3 \<and> (length b1 < length b3 \<or>
      length b1 = length b3 \<and> (length p1 < length p3 \<or> length p1 = length p3 \<and> l13)))"
    using A B l by auto
  then show ?thesis
    unfolding k1 k3 key_less_def prod.case l13_def r1_def r3_def .
qed

lemma sorted_wrt_unique:
  assumes anti: "\<And>x y. R x y \<Longrightarrow> R y x \<Longrightarrow> x = y"
  shows "sorted_wrt R xs \<Longrightarrow> sorted_wrt R ys \<Longrightarrow> mset xs = mset ys \<Longrightarrow> xs = ys"
proof (induction xs arbitrary: ys)
  case Nil
  then show ?case by simp
next
  case (Cons x xs)
  from Cons.prems(3) obtain y ys' where ys: "ys = y # ys'" by (cases ys) auto
  have "x = y"
  proof (rule ccontr)
    assume ne: "x \<noteq> y"
    have "x \<in> set ys" using Cons.prems(3) by (metis list.set_intros(1) mset_eq_setD)
    with ne ys have "x \<in> set ys'" by simp
    with Cons.prems(2) ys have 1: "R y x" by simp
    have "y \<in> set (x # xs)" using Cons.prems(3) ys by (metis list.set_intros(1) mset_eq_setD)
    with ne have "y \<in> set xs" by simp
    with Cons.prems(1) have 2: "R x y" by simp
    from anti [OF 1 2] ne show False by simp
  qed
  moreover from this Cons.prems(3) ys have "mset xs = mset ys'" by simp
  moreover from Cons.prems ys have "sorted_wrt R xs" "sorted_wrt R ys'" by simp_all
  ultimately show ?case using Cons.IH [of ys'] ys by simp
qed

lemma compare_zero_iff:
  assumes ok: "comparator_ok cmp q"
  shows "compareFiles lc cmp acc q a b = 0 \<longleftrightarrow> file_key lc acc q a = file_key lc acc q b"
proof
  assume "compareFiles lc cmp acc q a b = 0"
  then have "\<not> key_less cmp q (file_key lc acc q a) (file_key lc acc q b)"
      "\<not> key_less cmp q (file_key lc acc q b) (file_key lc acc q a)"
    using compare_neg_iff [OF ok, of lc acc a b] compare_pos_iff [OF ok, of lc acc a b] by simp_all
  then show "file_key lc acc q a = file_key lc acc q b" by (rule key_less_total [OF ok])
next
  assume e: "file_key lc acc q a = file_key lc acc q b"
  have "\<not> key_less cmp q (file_key lc acc q a) (file_key lc acc q b)"
      "\<not> key_less cmp q (file_key lc acc q b) (file_key lc acc q a)"
    using key_less_irrefl [OF ok] e by simp_all
  then show "compareFiles lc cmp acc q a b = 0"
    using compare_neg_iff [OF ok, of lc acc a b] compare_pos_iff [OF ok, of lc acc a b] by linarith
qed

lemma sorted_files_unique:
  assumes ok: "comparator_ok cmp q"
    and xs: "sorted_wrt (\<lambda>a b. compareFiles lc cmp acc q a b \<le> 0) xs"
    and ys: "sorted_wrt (\<lambda>a b. compareFiles lc cmp acc q a b \<le> 0) ys"
    and m: "mset xs = mset ys"
  shows "map (file_key lc acc q) xs = map (file_key lc acc q) ys"
proof -
  let ?R = "\<lambda>k1 k2. \<not> key_less cmp q k2 k1"
  have le: "compareFiles lc cmp acc q a b \<le> 0 \<longleftrightarrow> ?R (file_key lc acc q a) (file_key lc acc q b)" for a b
    using compare_pos_iff [OF ok, of lc acc a b] by linarith
  have 1: "sorted_wrt ?R (map (file_key lc acc q) xs)"
    using xs by (simp add: sorted_wrt_map le)
  have 2: "sorted_wrt ?R (map (file_key lc acc q) ys)"
    using ys by (simp add: sorted_wrt_map le)
  have 3: "mset (map (file_key lc acc q) xs) = mset (map (file_key lc acc q) ys)"
    using m by (metis mset_map)
  have anti: "\<And>x y. ?R x y \<Longrightarrow> ?R y x \<Longrightarrow> x = y"
    using key_less_total [OF ok] by blast
  from anti 1 2 3 show ?thesis by (rule sorted_wrt_unique)
qed

lemma lexCompare_ok: "comparator_ok lexCompare q"
  unfolding comparator_ok_def lexCompare_def by auto

lemma scoreFile_cong:
  assumes "(fileA = None) = (fileB = None)"
    and "getBasename accessorA fileA = getBasename accessorB fileB"
    and "getPath accessorA fileA = getPath accessorB fileB"
  shows "scoreFile lc fileA accessorA query cache = scoreFile lc fileB accessorB query cache"
  using assms by (simp add: scoreFile_def)

text \<open>
  C5, as the code has it. The comparator reads a file through the accessor only, and its
  last stage is \<^verbatim>\<open>compareAnything\<close>. Two different files with the same basename and the
  same path get the same result in both orders, whatever \<^verbatim>\<open>compareAnything\<close> and the
  lower-casing are: the result cannot have opposite signs unless it is 0, and then the two
  files tie and both of their arrangements are sorted. And the ties follow
  \<^verbatim>\<open>compareAnything\<close>: with a comparison of the lower-cased strings, \<^verbatim>\<open>A\<close> at \<^verbatim>\<open>x/A\<close>
  ties with \<^verbatim>\<open>a\<close> at \<^verbatim>\<open>y/a\<close>, which ties with \<^verbatim>\<open>A\<close> at \<^verbatim>\<open>z/A\<close>, while the first is
  before the third.
\<close>

theorem compare_ties_counterexample:
  "taggedFile1 \<noteq> taggedFile2 \<and>
   (\<forall>toLowerCase compareAnything query.
      compareFiles toLowerCase compareAnything taggedAccessor query taggedFile1 taggedFile2 =
      compareFiles toLowerCase compareAnything taggedAccessor query taggedFile2 taggedFile1) \<and>
   compareFiles toLowerCaseSample lowerCompare pairAccessor (js ''q'') caseFileX caseFileY = 0 \<and>
   compareFiles toLowerCaseSample lowerCompare pairAccessor (js ''q'') caseFileY caseFileZ = 0 \<and>
   compareFiles toLowerCaseSample lowerCompare pairAccessor (js ''q'') caseFileX caseFileZ < 0"
proof -
  have d: "taggedFile1 \<noteq> taggedFile2"
    by (simp add: taggedFile1_def taggedFile2_def)
  have b: "getBasename taggedAccessor taggedFile1 = getBasename taggedAccessor taggedFile2"
    and p: "getPath taggedAccessor taggedFile1 = getPath taggedAccessor taggedFile2"
    and n: "(taggedFile1 = None) = (taggedFile2 = None)"
    by (simp_all add: taggedFile1_def taggedFile2_def taggedAccessor_def)
  have s: "scoreFile lc taggedFile1 taggedAccessor q None = scoreFile lc taggedFile2 taggedAccessor q None"
    for lc q
    using n b p by (rule scoreFile_cong)
  have e: "compareFiles lc cmp taggedAccessor q taggedFile1 taggedFile2 =
      compareFiles lc cmp taggedAccessor q taggedFile2 taggedFile1" for lc cmp q
    unfolding compareFiles_def compare_cascade [OF refl refl refl refl refl refl] s b p
    by (rule refl)
  have 1: "compareFiles toLowerCaseSample lowerCompare pairAccessor (js ''q'') caseFileX caseFileY = 0"
    by code_simp
  have 2: "compareFiles toLowerCaseSample lowerCompare pairAccessor (js ''q'') caseFileY caseFileZ = 0"
    by code_simp
  have 3: "compareFiles toLowerCaseSample lowerCompare pairAccessor (js ''q'') caseFileX caseFileZ < 0"
    by code_simp
  from d e 1 2 3 show ?thesis by (intro conjI allI)
qed

text \<open>
  C5, amended. \<^verbatim>\<open>compareAnything\<close> is not among the sources; it is a parameter. When it
  is a strict total comparison of strings for the query (opposite signs when the arguments
  are swapped, 0 only for equal strings, transitive), then for every lower-casing function
  \<^verbatim>\<open>compareFilesByScore\<close> without a cache has opposite signs when the files are swapped
  and is 0 both ways or neither; the order it induces is transitive, and so are its ties;
  two files tie exactly when they have the same file score, basename and path; and two
  sorted arrangements of one collection of files list the same score, basename and path at
  every place, so that they differ at most in the places of files that tie.
\<close>

theorem compareFilesByScore_strict_weak_order:
  assumes "comparator_ok compareAnything query"
  shows
    "(compareFiles toLowerCase compareAnything accessor query a b < 0 \<longleftrightarrow>
        0 < compareFiles toLowerCase compareAnything accessor query b a) \<and>
     (compareFiles toLowerCase compareAnything accessor query a b = 0 \<longleftrightarrow>
        compareFiles toLowerCase compareAnything accessor query b a = 0) \<and>
     (compareFiles toLowerCase compareAnything accessor query a b < 0 \<and>
      compareFiles toLowerCase compareAnything accessor query b c < 0 \<longrightarrow>
        compareFiles toLowerCase compareAnything accessor query a c < 0) \<and>
     (compareFiles toLowerCase compareAnything accessor query a b = 0 \<and>
      compareFiles toLowerCase compareAnything accessor query b c = 0 \<longrightarrow>
        compareFiles toLowerCase compareAnything accessor query a c = 0) \<and>
     (compareFiles toLowerCase compareAnything accessor query a b = 0 \<longleftrightarrow>
        file_key toLowerCase accessor query a = file_key toLowerCase accessor query b) \<and>
     (mset xs = mset ys \<and>
      sorted_wrt (\<lambda>a b. compareFiles toLowerCase compareAnything accessor query a b \<le> 0) xs \<and>
      sorted_wrt (\<lambda>a b. compareFiles toLowerCase compareAnything accessor query a b \<le> 0) ys \<longrightarrow>
        map (file_key toLowerCase accessor query) xs = map (file_key toLowerCase accessor query) ys)"
proof -
  note ok = assms
  let ?cmp = "compareFiles toLowerCase compareAnything accessor query"
  let ?key = "file_key toLowerCase accessor query"
  have 1: "?cmp a b < 0 \<longleftrightarrow> 0 < ?cmp b a"
    using compare_neg_iff [OF ok, of toLowerCase accessor a b]
      compare_pos_iff [OF ok, of toLowerCase accessor b a]
    by simp
  have 2: "?cmp a b = 0 \<longleftrightarrow> ?cmp b a = 0"
    using compare_zero_iff [OF ok, of toLowerCase accessor a b]
      compare_zero_iff [OF ok, of toLowerCase accessor b a]
    by auto
  have 3: "?cmp a c < 0" if "?cmp a b < 0" and "?cmp b c < 0"
    using that key_less_trans [OF ok, of "?key a" "?key b" "?key c"]
    by (simp add: compare_neg_iff [OF ok])
  have 4: "?cmp a c = 0" if "?cmp a b = 0" and "?cmp b c = 0"
    using that by (simp add: compare_zero_iff [OF ok])
  have 5: "?cmp a b = 0 \<longleftrightarrow> ?key a = ?key b"
    by (rule compare_zero_iff [OF ok])
  have 6: "map ?key xs = map ?key ys"
    if "mset xs = mset ys" and "sorted_wrt (\<lambda>a b. ?cmp a b \<le> 0) xs"
      and "sorted_wrt (\<lambda>a b. ?cmp a b \<le> 0) ys"
    using sorted_files_unique [OF ok that(2) that(3) that(1)] .
  from 1 2 3 4 5 6 show ?thesis by blast
qed

theorem compareFilesByScore_strict_weak_order_witness:
  "comparator_ok lexCompare (js ''somepath'') \<and>
   compareFiles toLowerCaseSample lexCompare pairAccessor (js ''somepath'') resourceA resourceB < 0 \<and>
   compareFiles toLowerCaseSample lexCompare pairAccessor (js ''somepath'') resourceB resourceC < 0 \<and>
   compareFiles toLowerCaseSample lexCompare pairAccessor (js ''somepath'') resourceA resourceC < 0 \<and>
   0 < compareFiles toLowerCaseSample lexCompare pairAccessor (js ''somepath'') resourceB resourceA \<and>
   compareFiles toLowerCaseSample lexCompare taggedAccessor (js ''somepath'') taggedFile1 taggedFile2 = 0 \<and>
   compareFiles toLowerCaseSample lexCompare taggedAccessor (js ''somepath'') taggedFile2 taggedFile1 = 0 \<and>
   mset [taggedFile1, taggedFile2] = mset [taggedFile2, taggedFile1] \<and>
   map (file_key toLowerCaseSample taggedAccessor (js ''somepath'')) [taggedFile1, taggedFile2] =
     map (file_key toLowerCaseSample taggedAccessor (js ''somepath'')) [taggedFile2, taggedFile1]"
proof -
  have ok: "comparator_ok lexCompare (js ''somepath'')"
    by (rule lexCompare_ok)
  have ab: "compareFiles toLowerCaseSample lexCompare pairAccessor (js ''somepath'') resourceA resourceB < 0"
    by code_simp
  have bc: "compareFiles toLowerCaseSample lexCompare pairAccessor (js ''somepath'') resourceB resourceC < 0"
    by code_simp
  have z: "compareFiles toLowerCaseSample lexCompare taggedAccessor (js ''somepath'')
      taggedFile1 taggedFile2 = 0"
    by code_simp
  have m: "mset [taggedFile1, taggedFile2] = mset [taggedFile2, taggedFile1]"
    by simp
  have s1: "sorted_wrt (\<lambda>a b. compareFiles toLowerCaseSample lexCompare taggedAccessor
      (js ''somepath'') a b \<le> 0) [taggedFile1, taggedFile2]"
    using z by simp
  note t1 = compareFilesByScore_strict_weak_order [OF ok, of toLowerCaseSample pairAccessor
      resourceA resourceB resourceC "[]" "[]"]
  note t2 = compareFilesByScore_strict_weak_order [OF ok, of toLowerCaseSample taggedAccessor
      taggedFile1 taggedFile2 taggedFile1 "[taggedFile1, taggedFile2]" "[taggedFile2, taggedFile1]"]
  have ba: "0 < compareFiles toLowerCaseSample lexCompare pairAccessor (js ''somepath'') resourceB resourceA"
    using t1 [THEN conjunct1] ab by simp
  have ac: "compareFiles toLowerCaseSample lexCompare pairAccessor (js ''somepath'') resourceA resourceC < 0"
    using t1 [THEN conjunct2, THEN conjunct2, THEN conjunct1] ab bc by simp
  have z': "compareFiles toLowerCaseSample lexCompare taggedAccessor (js ''somepath'')
      taggedFile2 taggedFile1 = 0"
    using t2 [THEN conjunct2, THEN conjunct1] z by simp
  have s2: "sorted_wrt (\<lambda>a b. compareFiles toLowerCaseSample lexCompare taggedAccessor
      (js ''somepath'') a b \<le> 0) [taggedFile2, taggedFile1]"
    using z' by simp
  have u: "map (file_key toLowerCaseSample taggedAccessor (js ''somepath'')) [taggedFile1, taggedFile2] =
     map (file_key toLowerCaseSample taggedAccessor (js ''somepath'')) [taggedFile2, taggedFile1]"
    using t2 [THEN conjunct2, THEN conjunct2, THEN conjunct2, THEN conjunct2, THEN conjunct2]
      m s1 s2 by (simp only: simp_thms)
  show ?thesis
    by (intro conjI ok ab bc ac ba z z' m u)
qed

text \<open>
  C3. \<^verbatim>\<open>scoreFile\<close> without a cache: the sentinel for an absent file or an empty
  basename or path; else the identity score lc with one full range on the basename and one
  on the path when the query equals the path without regard to case; else the prefix
  score lc with the one range \<open>[0, len(query))\<close> when the basename starts with the query
  without regard to case; else the score lc of the basename plus the threshold, with the
  ranges of the basename positions, when that score lc is not 0; else the score lc of the path
  with the ranges of the path positions when that score lc is not 0; else the sentinel.
\<close>

theorem scoreFile_tiers:
  assumes "basename = getBasename accessor file" and "path = getPath accessor file"
    and "sb = fst (score toLowerCase basename query None)" and "sp = fst (score toLowerCase path query None)"
    and "r = fst (scoreFile toLowerCase file accessor query None)"
  shows
   "(file = None \<or> basename = [] \<or> path = [] \<longrightarrow> r = NO_FILE_SCORE) \<and>
    (file \<noteq> None \<and> basename \<noteq> [] \<and> path \<noteq> [] \<longrightarrow>
       (isEqual toLowerCase query path True \<longrightarrow>
          r = \<lparr>file_score = PATH_IDENTITY_SCORE,
                basenameMatch = Some [\<lparr>m_start = 0, m_end = length basename\<rparr>],
                pathMatch = Some [\<lparr>m_start = 0, m_end = length path\<rparr>]\<rparr>) \<and>
       (\<not> isEqual toLowerCase query path True \<longrightarrow>
          (prefix (toLowerCase query) (toLowerCase basename) \<longrightarrow>
             r = \<lparr>file_score = BASENAME_PREFIX_SCORE,
                   basenameMatch = Some [\<lparr>m_start = 0, m_end = length query\<rparr>],
                   pathMatch = None\<rparr>) \<and>
          (\<not> prefix (toLowerCase query) (toLowerCase basename) \<longrightarrow>
             (fst sb \<noteq> 0 \<longrightarrow>
                r = \<lparr>file_score = fst sb + BASENAME_SCORE_THRESHOLD,
                      basenameMatch = Some (createMatches (snd sb)),
                      pathMatch = None\<rparr>) \<and>
             (fst sb = 0 \<longrightarrow>
                (fst sp \<noteq> 0 \<longrightarrow>
                   r = \<lparr>file_score = fst sp,
                         basenameMatch = None,
                         pathMatch = Some (createMatches (snd sp))\<rparr>) \<and>
                (fst sp = 0 \<longrightarrow> r = NO_FILE_SCORE)))))"
proof -
  obtain s1 p1 where sb': "sb = (s1, p1)" by (cases sb)
  obtain s2 p2 where sp': "sp = (s2, p2)" by (cases sp)
  have 1: "score toLowerCase basename query None = ((s1, p1), None)"
    using score_None_eq [of toLowerCase basename query] assms(3) sb' by simp
  have 2: "score toLowerCase path query None = ((s2, p2), None)"
    using score_None_eq [of toLowerCase path query] assms(4) sp' by simp
  show ?thesis
    unfolding assms(5) scoreFile_def assms(1) [symmetric] assms(2) [symmetric] Let_def
      matchesPrefix_def
    by (simp add: 1 2 sb' sp')
qed

theorem scoreFile_tiers_witness:
  "fst (scoreFile toLowerCaseSample (None :: (jsstring \<times> jsstring) option) pairAccessor (js ''something'') None) = NO_FILE_SCORE \<and>
   fst (scoreFile toLowerCaseSample someFile pairAccessor (js ''/xyz/some/path/someFile123.txt'') None) =
     \<lparr>file_score = PATH_IDENTITY_SCORE,
      basenameMatch = Some [\<lparr>m_start = 0, m_end = 15\<rparr>],
      pathMatch = Some [\<lparr>m_start = 0, m_end = 30\<rparr>]\<rparr> \<and>
   fst (scoreFile toLowerCaseSample someFile pairAccessor (js ''som'') None) =
     \<lparr>file_score = BASENAME_PREFIX_SCORE,
      basenameMatch = Some [\<lparr>m_start = 0, m_end = 3\<rparr>], pathMatch = None\<rparr> \<and>
   fst (scoreFile toLowerCaseSample someFile pairAccessor (js ''of'') None) =
     \<lparr>file_score = 4 + BASENAME_SCORE_THRESHOLD,
      basenameMatch = Some [\<lparr>m_start = 1, m_end = 2\<rparr>, \<lparr>m_start = 4, m_end = 5\<rparr>],
      pathMatch = None\<rparr> \<and>
   fst (scoreFile toLowerCaseSample someFile pairAccessor (js ''xyz123'') None) =
     \<lparr>file_score = 39, basenameMatch = None,
      pathMatch = Some [\<lparr>m_start = 1, m_end = 4\<rparr>, \<lparr>m_start = 23, m_end = 26\<rparr>]\<rparr> \<and>
   fst (scoreFile toLowerCaseSample someFile pairAccessor (js ''987'') None) = NO_FILE_SCORE"
proof -
  have f: "someFile \<noteq> None" "getBasename pairAccessor someFile = (js ''someFile123.txt'')"
    "getPath pairAccessor someFile = (js ''/xyz/some/path/someFile123.txt'')"
    by (simp_all add: someFile_def pairAccessor_def)
  have 0: "fst (scoreFile toLowerCaseSample (None :: (jsstring \<times> jsstring) option) pairAccessor (js ''something'') None)
      = NO_FILE_SCORE"
    using scoreFile_tiers [OF refl refl refl refl refl, of None pairAccessor toLowerCaseSample "(js ''something'')"]
    by simp
  have "isEqual toLowerCaseSample (js ''/xyz/some/path/someFile123.txt'') (js ''/xyz/some/path/someFile123.txt'') True"
    by (simp add: isEqual_def)
  then have 1: "fst (scoreFile toLowerCaseSample someFile pairAccessor (js ''/xyz/some/path/someFile123.txt'') None) =
     \<lparr>file_score = PATH_IDENTITY_SCORE,
      basenameMatch = Some [\<lparr>m_start = 0, m_end = 15\<rparr>],
      pathMatch = Some [\<lparr>m_start = 0, m_end = 30\<rparr>]\<rparr>"
    using scoreFile_tiers [OF refl refl refl refl refl, of someFile pairAccessor toLowerCaseSample
        "(js ''/xyz/some/path/someFile123.txt'')"] f
    by simp
  have "\<not> isEqual toLowerCaseSample (js ''som'') (js ''/xyz/some/path/someFile123.txt'') True"
    "prefix (toLowerCaseSample (js ''som'')) (toLowerCaseSample (js ''someFile123.txt''))"
    by code_simp+
  then have 2: "fst (scoreFile toLowerCaseSample someFile pairAccessor (js ''som'') None) =
     \<lparr>file_score = BASENAME_PREFIX_SCORE,
      basenameMatch = Some [\<lparr>m_start = 0, m_end = 3\<rparr>], pathMatch = None\<rparr>"
    using scoreFile_tiers [OF refl refl refl refl refl, of someFile pairAccessor toLowerCaseSample "(js ''som'')"] f
    by simp
  have "\<not> isEqual toLowerCaseSample (js ''of'') (js ''/xyz/some/path/someFile123.txt'') True"
    "\<not> prefix (toLowerCaseSample (js ''of'')) (toLowerCaseSample (js ''someFile123.txt''))"
    "fst (score toLowerCaseSample (js ''someFile123.txt'') (js ''of'') None) = (4, [1, 4])"
    by code_simp+
  then have 3: "fst (scoreFile toLowerCaseSample someFile pairAccessor (js ''of'') None) =
     \<lparr>file_score = 4 + BASENAME_SCORE_THRESHOLD,
      basenameMatch = Some [\<lparr>m_start = 1, m_end = 2\<rparr>, \<lparr>m_start = 4, m_end = 5\<rparr>],
      pathMatch = None\<rparr>"
    using scoreFile_tiers [OF refl refl refl refl refl, of someFile pairAccessor toLowerCaseSample "(js ''of'')"] f
    by simp
  have "\<not> isEqual toLowerCaseSample (js ''xyz123'') (js ''/xyz/some/path/someFile123.txt'') True"
    "\<not> prefix (toLowerCaseSample (js ''xyz123'')) (toLowerCaseSample (js ''someFile123.txt''))"
    "fst (score toLowerCaseSample (js ''someFile123.txt'') (js ''xyz123'') None) = (0, [])"
    "fst (score toLowerCaseSample (js ''/xyz/some/path/someFile123.txt'') (js ''xyz123'') None) = (39, [1, 2, 3, 23, 24, 25])"
    by code_simp+
  then have 4: "fst (scoreFile toLowerCaseSample someFile pairAccessor (js ''xyz123'') None) =
     \<lparr>file_score = 39, basenameMatch = None,
      pathMatch = Some [\<lparr>m_start = 1, m_end = 4\<rparr>, \<lparr>m_start = 23, m_end = 26\<rparr>]\<rparr>"
    using scoreFile_tiers [OF refl refl refl refl refl, of someFile pairAccessor toLowerCaseSample "(js ''xyz123'')"] f
    by simp
  have "\<not> isEqual toLowerCaseSample (js ''987'') (js ''/xyz/some/path/someFile123.txt'') True"
    "\<not> prefix (toLowerCaseSample (js ''987'')) (toLowerCaseSample (js ''someFile123.txt''))"
    "fst (score toLowerCaseSample (js ''someFile123.txt'') (js ''987'') None) = (0, [])"
    "fst (score toLowerCaseSample (js ''/xyz/some/path/someFile123.txt'') (js ''987'') None) = (0, [])"
    by code_simp+
  then have 5: "fst (scoreFile toLowerCaseSample someFile pairAccessor (js ''987'') None) = NO_FILE_SCORE"
    using scoreFile_tiers [OF refl refl refl refl refl, of someFile pairAccessor toLowerCaseSample "(js ''987'')"] f
    by simp
  from 0 1 2 3 4 5 show ?thesis by blast
qed

text \<open>
  C4. The cascade of \<^verbatim>\<open>compareFilesByScore\<close> without a cache, stage by stage: a side
  with the identity score lc wins over a side without; else a side with the prefix score lc wins
  over a side without, and of two prefix matches the shorter basename wins; else a side
  above the threshold wins over a side below it; else the higher score lc wins; and for equal
  scores the shorter basename wins, then the shorter path, then \<^verbatim>\<open>compareAnything\<close> on
  the basenames when they differ, and on the paths when the basenames are the same. When
  \<^verbatim>\<open>compareAnything\<close> is 0 only for equal strings, the last two stages are the
  comparison of the basenames and, when that is 0, the comparison of the paths.
\<close>

theorem compareFilesByScore_cascade:
  assumes "scoreA = file_score (fst (scoreFile toLowerCase fileA accessor query None))"
    and "scoreB = file_score (fst (scoreFile toLowerCase fileB accessor query None))"
    and "basenameA = getBasename accessor fileA" and "basenameB = getBasename accessor fileB"
    and "pathA = getPath accessor fileA" and "pathB = getPath accessor fileB"
    and "r = fst (compareFilesByScore toLowerCase compareAnything fileA fileB accessor query None)"
  shows
   "(scoreA = PATH_IDENTITY_SCORE \<and> scoreB \<noteq> PATH_IDENTITY_SCORE \<longrightarrow> r = - 1) \<and>
    (scoreB = PATH_IDENTITY_SCORE \<and> scoreA \<noteq> PATH_IDENTITY_SCORE \<longrightarrow> r = 1) \<and>
    (scoreA = BASENAME_PREFIX_SCORE \<and> scoreB \<noteq> BASENAME_PREFIX_SCORE \<and>
     scoreB \<noteq> PATH_IDENTITY_SCORE \<longrightarrow> r = - 1) \<and>
    (scoreB = BASENAME_PREFIX_SCORE \<and> scoreA \<noteq> BASENAME_PREFIX_SCORE \<and>
     scoreA \<noteq> PATH_IDENTITY_SCORE \<longrightarrow> r = 1) \<and>
    (scoreA = BASENAME_PREFIX_SCORE \<and> scoreB = BASENAME_PREFIX_SCORE \<and>
     length basenameA \<noteq> length basenameB \<longrightarrow>
       r = int (length basenameA) - int (length basenameB)) \<and>
    (scoreA \<noteq> PATH_IDENTITY_SCORE \<and> scoreB \<noteq> PATH_IDENTITY_SCORE \<and>
     scoreA \<noteq> BASENAME_PREFIX_SCORE \<and> scoreB \<noteq> BASENAME_PREFIX_SCORE \<longrightarrow>
       (BASENAME_SCORE_THRESHOLD < scoreA \<and> scoreB < BASENAME_SCORE_THRESHOLD \<longrightarrow> r = - 1) \<and>
       (BASENAME_SCORE_THRESHOLD < scoreB \<and> scoreA < BASENAME_SCORE_THRESHOLD \<longrightarrow> r = 1) \<and>
       (scoreB < scoreA \<longrightarrow> r = - 1) \<and>
       (scoreA < scoreB \<longrightarrow> r = 1)) \<and>
    (scoreA = scoreB \<longrightarrow>
       (length basenameA \<noteq> length basenameB \<longrightarrow>
          r = int (length basenameA) - int (length basenameB)) \<and>
       (length basenameA = length basenameB \<longrightarrow>
          (length pathA \<noteq> length pathB \<longrightarrow> r = int (length pathA) - int (length pathB)) \<and>
          (length pathA = length pathB \<longrightarrow>
             (basenameA \<noteq> basenameB \<longrightarrow> r = compareAnything basenameA basenameB query) \<and>
             (basenameA = basenameB \<longrightarrow> r = compareAnything pathA pathB query) \<and>
             ((\<forall>x y. compareAnything x y query = 0 \<longleftrightarrow> x = y) \<longrightarrow>
                r = (if compareAnything basenameA basenameB query \<noteq> 0
                     then compareAnything basenameA basenameB query
                     else compareAnything pathA pathB query)))))"
proof -
  note c = compare_cascade [OF assms(1-6), of compareAnything, folded assms(7)]
  have 1: "scoreA = PATH_IDENTITY_SCORE \<and> scoreB \<noteq> PATH_IDENTITY_SCORE \<longrightarrow> r = - 1"
    by (simp add: c)
  have 2: "scoreB = PATH_IDENTITY_SCORE \<and> scoreA \<noteq> PATH_IDENTITY_SCORE \<longrightarrow> r = 1"
    by (simp add: c)
  have 3: "scoreA = BASENAME_PREFIX_SCORE \<and> scoreB \<noteq> BASENAME_PREFIX_SCORE \<and>
     scoreB \<noteq> PATH_IDENTITY_SCORE \<longrightarrow> r = - 1"
    by (simp add: c)
  have 4: "scoreB = BASENAME_PREFIX_SCORE \<and> scoreA \<noteq> BASENAME_PREFIX_SCORE \<and>
     scoreA \<noteq> PATH_IDENTITY_SCORE \<longrightarrow> r = 1"
    by (simp add: c)
  have 5: "scoreA = BASENAME_PREFIX_SCORE \<and> scoreB = BASENAME_PREFIX_SCORE \<and>
     length basenameA \<noteq> length basenameB \<longrightarrow>
       r = int (length basenameA) - int (length basenameB)"
    by (simp add: c)
  have 6: "scoreA \<noteq> PATH_IDENTITY_SCORE \<and> scoreB \<noteq> PATH_IDENTITY_SCORE \<and>
     scoreA \<noteq> BASENAME_PREFIX_SCORE \<and> scoreB \<noteq> BASENAME_PREFIX_SCORE \<longrightarrow>
       (BASENAME_SCORE_THRESHOLD < scoreA \<and> scoreB < BASENAME_SCORE_THRESHOLD \<longrightarrow> r = - 1) \<and>
       (BASENAME_SCORE_THRESHOLD < scoreB \<and> scoreA < BASENAME_SCORE_THRESHOLD \<longrightarrow> r = 1) \<and>
       (scoreB < scoreA \<longrightarrow> r = - 1) \<and>
       (scoreA < scoreB \<longrightarrow> r = 1)"
    by (simp add: c)
  have 7: "scoreA = scoreB \<longrightarrow>
       (length basenameA \<noteq> length basenameB \<longrightarrow>
          r = int (length basenameA) - int (length basenameB)) \<and>
       (length basenameA = length basenameB \<longrightarrow>
          (length pathA \<noteq> length pathB \<longrightarrow> r = int (length pathA) - int (length pathB)) \<and>
          (length pathA = length pathB \<longrightarrow>
             (basenameA \<noteq> basenameB \<longrightarrow> r = compareAnything basenameA basenameB query) \<and>
             (basenameA = basenameB \<longrightarrow> r = compareAnything pathA pathB query) \<and>
             ((\<forall>x y. compareAnything x y query = 0 \<longleftrightarrow> x = y) \<longrightarrow>
                r = (if compareAnything basenameA basenameB query \<noteq> 0
                     then compareAnything basenameA basenameB query
                     else compareAnything pathA pathB query))))"
    by (simp add: c)
  from 1 2 3 4 5 6 7 show ?thesis by (intro conjI)
qed

theorem compareFilesByScore_cascade_witness:
  "file_score (fst (scoreFile toLowerCaseSample resourceA pairAccessor (js ''/some/path/fileA.txt'') None)) = PATH_IDENTITY_SCORE \<and>
   file_score (fst (scoreFile toLowerCaseSample resourceB pairAccessor (js ''/some/path/fileA.txt'') None)) \<noteq> PATH_IDENTITY_SCORE \<and>
   fst (compareFilesByScore toLowerCaseSample lexCompare resourceA resourceB pairAccessor (js ''/some/path/fileA.txt'') None) = - 1 \<and>
   file_score (fst (scoreFile toLowerCaseSample resourceB pairAccessor (js ''fileB.txt'') None)) = BASENAME_PREFIX_SCORE \<and>
   file_score (fst (scoreFile toLowerCaseSample resourceA pairAccessor (js ''fileB.txt'') None)) \<noteq> BASENAME_PREFIX_SCORE \<and>
   file_score (fst (scoreFile toLowerCaseSample resourceA pairAccessor (js ''fileB.txt'') None)) \<noteq> PATH_IDENTITY_SCORE \<and>
   fst (compareFilesByScore toLowerCaseSample lexCompare resourceA resourceB pairAccessor (js ''fileB.txt'') None) = 1 \<and>
   file_score (fst (scoreFile toLowerCaseSample resourceA pairAccessor (js ''somepath'') None)) =
     file_score (fst (scoreFile toLowerCaseSample resourceB pairAccessor (js ''somepath'') None)) \<and>
   length (getBasename pairAccessor resourceA) = length (getBasename pairAccessor resourceB) \<and>
   length (getPath pairAccessor resourceA) \<noteq> length (getPath pairAccessor resourceB) \<and>
   fst (compareFilesByScore toLowerCaseSample lexCompare resourceA resourceB pairAccessor (js ''somepath'') None) = - 6"
proof -
  have i: "file_score (fst (scoreFile toLowerCaseSample resourceA pairAccessor (js ''/some/path/fileA.txt'') None))
      = PATH_IDENTITY_SCORE"
    "file_score (fst (scoreFile toLowerCaseSample resourceB pairAccessor (js ''/some/path/fileA.txt'') None))
      \<noteq> PATH_IDENTITY_SCORE"
    by code_simp+
  have p: "file_score (fst (scoreFile toLowerCaseSample resourceB pairAccessor (js ''fileB.txt'') None))
      = BASENAME_PREFIX_SCORE"
    "file_score (fst (scoreFile toLowerCaseSample resourceA pairAccessor (js ''fileB.txt'') None))
      \<noteq> BASENAME_PREFIX_SCORE"
    "file_score (fst (scoreFile toLowerCaseSample resourceA pairAccessor (js ''fileB.txt'') None))
      \<noteq> PATH_IDENTITY_SCORE"
    by code_simp+
  have e: "file_score (fst (scoreFile toLowerCaseSample resourceA pairAccessor (js ''somepath'') None)) =
      file_score (fst (scoreFile toLowerCaseSample resourceB pairAccessor (js ''somepath'') None))"
    by code_simp
  have l: "getBasename pairAccessor resourceA = (js ''fileA.txt'')"
    "getBasename pairAccessor resourceB = (js ''fileB.txt'')"
    "getPath pairAccessor resourceA = (js ''/some/path/fileA.txt'')"
    "getPath pairAccessor resourceB = (js ''/some/path/other/fileB.txt'')"
    by (simp_all add: pairAccessor_def resourceA_def resourceB_def)
  have 1: "fst (compareFilesByScore toLowerCaseSample lexCompare resourceA resourceB pairAccessor
      (js ''/some/path/fileA.txt'') None) = - 1"
    using compareFilesByScore_cascade [OF refl refl refl refl refl refl refl,
        where fileA = resourceA and fileB = resourceB and accessor = pairAccessor
          and toLowerCase = toLowerCaseSample and query = "(js ''/some/path/fileA.txt'')" and compareAnything = lexCompare,
        THEN conjunct1] i
    by (simp only: simp_thms)
  have 2: "fst (compareFilesByScore toLowerCaseSample lexCompare resourceA resourceB pairAccessor
      (js ''fileB.txt'') None) = 1"
    using compareFilesByScore_cascade [OF refl refl refl refl refl refl refl,
        where fileA = resourceA and fileB = resourceB and accessor = pairAccessor
          and toLowerCase = toLowerCaseSample and query = "(js ''fileB.txt'')" and compareAnything = lexCompare,
        THEN conjunct2, THEN conjunct2, THEN conjunct2, THEN conjunct1] p
    by (simp only: simp_thms)
  have 3: "fst (compareFilesByScore toLowerCaseSample lexCompare resourceA resourceB pairAccessor
      (js ''somepath'') None) = - 6"
    using compareFilesByScore_cascade [OF refl refl refl refl refl refl refl,
        where fileA = resourceA and fileB = resourceB and accessor = pairAccessor
          and toLowerCase = toLowerCaseSample and query = "(js ''somepath'')" and compareAnything = lexCompare,
        THEN conjunct2, THEN conjunct2, THEN conjunct2, THEN conjunct2, THEN conjunct2,
        THEN conjunct2] e
    by (simp add: l)
  show ?thesis
    using i p e 1 2 3 by (simp add: l)
qed

subsection \<open>The order of the tiers\<close>

lemma greedy_gains_le:
  "\<forall>u \<in> set us. u \<noteq> [] \<Longrightarrow> greedy_positions t' us s = Some ps \<Longrightarrow> 0 < index \<Longrightarrow> 0 < s \<Longrightarrow>
   gains target query index s ps \<le> 14 * int (length ps)"
proof (induction us arbitrary: s ps index)
  case Nil
  then show ?case by simp
next
  case (Cons u us)
  then obtain i ps' where
    i: "indexOf t' u s = Some i" and
    ps': "greedy_positions t' us (Suc i) = Some ps'" and
    ps: "ps = i # ps'"
    by (auto split: option.splits)
  from Cons.prems(1) have u: "u \<noteq> []" and us: "\<forall>u \<in> set us. u \<noteq> []" by simp_all
  from indexOf_Some [OF u i] Cons.prems(4) have "0 < i" by simp
  with Cons.prems(3) have "gain target query index s i \<le> 14" by (rule gain_le_14)
  moreover have "gains target query (Suc index) (Suc i) ps' \<le> 14 * int (length ps')"
    using Cons.IH [OF us ps'] by simp
  ultimately show ?case by (simp add: ps)
qed

lemma greedy_gains_le_first:
  assumes ne: "\<forall>u \<in> set us. u \<noteq> []" and g: "greedy_positions t' us 0 = Some ps"
  shows "gains target query 0 0 ps \<le> 14 * int (length ps) - 4 \<or> ps = []"
proof (cases us)
  case Nil
  with g show ?thesis by simp
next
  case (Cons u us')
  with g obtain i ps' where
    ps': "greedy_positions t' us' (Suc i) = Some ps'" and
    ps: "ps = i # ps'"
    by (auto split: option.splits)
  from ne Cons have us': "\<forall>u \<in> set us'. u \<noteq> []" by simp
  have "gain target query 0 0 i \<le> 10" by (rule gain_le_10)
  moreover have "gains target query (Suc 0) (Suc i) ps' \<le> 14 * int (length ps')"
    using greedy_gains_le [OF us' ps'] by simp
  ultimately show ?thesis by (simp add: ps)
qed

lemma score_uncached_le:
  assumes q: "query \<noteq> []"
  shows "fst (fst (score lc target query None)) \<le> 14 * int (length query) - 4"
proof (cases "fst (score lc target query None) = NO_SCORE")
  case True
  from q have "1 \<le> int (length query)" by (cases query) simp_all
  then have "0 \<le> 14 * int (length query) - 4" by linarith
  with True show ?thesis by (simp add: NO_SCORE_def)
next
  case False
  then have le: "length query \<le> length target"
    and "greedy_positions (lc target) (query_searches lc query) 0 \<noteq> None"
    using score_sentinel_iff_aux [of lc target query] by auto
  then obtain ps where g: "greedy_positions (lc target) (query_searches lc query) 0 = Some ps"
    by auto
  from greedy_query_props(1) [OF g] have len: "length ps = length query" .
  with q have "ps \<noteq> []" by auto
  moreover have "\<forall>u \<in> set (query_searches lc query). u \<noteq> []"
    by (auto simp: query_searches_def)
  ultimately have "gains target query 0 0 ps \<le> 14 * int (length query) - 4"
    using greedy_gains_le_first [OF _ g, of target query] len by simp
  then show ?thesis
    by (simp add: score_uncached_Some [OF le g] gains_spec_score [OF len, symmetric])
qed

lemma score_uncached_nonneg: "0 \<le> fst (fst (score lc target query None))"
  using score_uncached_ok [of lc target query] by (simp add: score_ok_def)

lemma score_empty_query: "fst (score lc target [] None) = NO_SCORE"
  by (simp add: score_def)

lemma scoreFile_cases:
  obtains "fst (scoreFile lc file accessor query None) = NO_FILE_SCORE"
  | "file_score (fst (scoreFile lc file accessor query None)) = PATH_IDENTITY_SCORE"
    "basenameMatch (fst (scoreFile lc file accessor query None)) \<noteq> None"
  | "file_score (fst (scoreFile lc file accessor query None)) = BASENAME_PREFIX_SCORE"
    "basenameMatch (fst (scoreFile lc file accessor query None)) \<noteq> None"
  | "file_score (fst (scoreFile lc file accessor query None)) =
       fst (fst (score lc (getBasename accessor file) query None)) + BASENAME_SCORE_THRESHOLD"
    "fst (fst (score lc (getBasename accessor file) query None)) \<noteq> 0"
    "basenameMatch (fst (scoreFile lc file accessor query None)) \<noteq> None"
  | "file_score (fst (scoreFile lc file accessor query None)) =
       fst (fst (score lc (getPath accessor file) query None))"
    "fst (fst (score lc (getPath accessor file) query None)) \<noteq> 0"
    "basenameMatch (fst (scoreFile lc file accessor query None)) = None"
proof -
  obtain s1 p1 where 1: "score lc (getBasename accessor file) query None = ((s1, p1), None)"
    using score_None_eq [of lc "getBasename accessor file" query]
    by (cases "fst (score lc (getBasename accessor file) query None)") auto
  obtain s2 p2 where 2: "score lc (getPath accessor file) query None = ((s2, p2), None)"
    using score_None_eq [of lc "getPath accessor file" query]
    by (cases "fst (score lc (getPath accessor file) query None)") auto
  have "fst (scoreFile lc file accessor query None) = NO_FILE_SCORE \<or>
    (file_score (fst (scoreFile lc file accessor query None)) = PATH_IDENTITY_SCORE \<and>
     basenameMatch (fst (scoreFile lc file accessor query None)) \<noteq> None) \<or>
    (file_score (fst (scoreFile lc file accessor query None)) = BASENAME_PREFIX_SCORE \<and>
     basenameMatch (fst (scoreFile lc file accessor query None)) \<noteq> None) \<or>
    (file_score (fst (scoreFile lc file accessor query None)) = s1 + BASENAME_SCORE_THRESHOLD \<and>
     s1 \<noteq> 0 \<and> basenameMatch (fst (scoreFile lc file accessor query None)) \<noteq> None) \<or>
    (file_score (fst (scoreFile lc file accessor query None)) = s2 \<and> s2 \<noteq> 0 \<and>
     basenameMatch (fst (scoreFile lc file accessor query None)) = None)"
    unfolding scoreFile_def Let_def matchesPrefix_def
    by (simp add: 1 2)
  with that 1 2 show ?thesis by auto
qed

lemma scoreFile_path_only_le:
  assumes b: "basenameMatch (fst (scoreFile lc file accessor query None)) = None"
  shows "file_score (fst (scoreFile lc file accessor query None)) \<le> 14 * int (length query) - 4 \<or>
         file_score (fst (scoreFile lc file accessor query None)) = 0"
proof (cases rule: scoreFile_cases [of lc "file" accessor query])
  case 1
  then show ?thesis by (simp add: NO_FILE_SCORE_def)
next
  case 2
  with b show ?thesis by simp
next
  case 3
  with b show ?thesis by simp
next
  case 4
  with b show ?thesis by simp
next
  case 5
  then have "query \<noteq> []"
    using score_empty_query [of lc "getPath accessor file"] by (auto simp: NO_SCORE_def)
  from score_uncached_le [OF this, of lc "getPath accessor file"] 5 show ?thesis by simp
qed

lemma scoreFile_basename_gt:
  assumes b: "basenameMatch (fst (scoreFile lc file accessor query None)) \<noteq> None"
  shows "BASENAME_SCORE_THRESHOLD < file_score (fst (scoreFile lc file accessor query None))"
proof (cases rule: scoreFile_cases [of lc "file" accessor query])
  case 1
  with b show ?thesis by (simp add: NO_FILE_SCORE_def)
next
  case 2
  then show ?thesis by simp
next
  case 3
  then show ?thesis by simp
next
  case 4
  with score_uncached_nonneg [of lc "getBasename accessor file" query] show ?thesis by simp
next
  case 5
  with b show ?thesis by simp
qed

lemma toLowerCaseSample_dots [simp]: "toLowerCaseSample (replicate n 0x2E) = replicate n 0x2E"
  by (induction n) (simp_all add: toLowerCaseSample_def lowerUnit_def)

lemma indexOf_replicate: "s < n \<Longrightarrow> indexOf (replicate n c) [c] s = Some s"
proof (induction n arbitrary: s)
  case 0
  then show ?case by simp
next
  case (Suc n)
  then show ?case by (cases s) simp_all
qed

lemma greedy_positions_replicate:
  "s + m \<le> n \<Longrightarrow> greedy_positions (replicate n c) (replicate m [c]) s = Some [s..<s + m]"
proof (induction m arbitrary: s)
  case 0
  then show ?case by simp
next
  case (Suc m)
  then have "s < n" "Suc s + m \<le> n" by simp_all
  with Suc.IH [of "Suc s"] show ?case
    by (simp add: indexOf_replicate upt_conv_Cons del: upt_Suc)
qed

lemma query_searches_dots:
  "query_searches toLowerCaseSample (replicate m 0x2E) = replicate m [0x2E]"
  using query_searches_same_length [of toLowerCaseSample "replicate m 0x2E"]
  by simp

lemma sum_list_first_rest:
  "0 < m \<Longrightarrow> sum_list (map (\<lambda>k. if k = 0 then (10::int) else 14) [0..<m]) = 14 * int m - 4"
proof (induction m)
  case 0
  then show ?case by simp
next
  case (Suc m)
  then show ?case by (cases "m = 0") simp_all
qed

lemma spec_score_dots:
  assumes "0 < m" and "m \<le> n"
  shows "spec_score (replicate n 0x2E) (replicate m 0x2E) [0..<m] = 14 * int m - 4"
proof -
  have "spec_char_score (replicate n 0x2E) (replicate m 0x2E) [0..<m] k =
      (if k = 0 then 10 else 14)" if "k \<in> set [0..<m]" for k
    using that assms
    by (auto simp: spec_char_score_def wordPathBoundary_def unitAt_def boundaryBefore_def)
  then have m: "map (spec_char_score (replicate n 0x2E) (replicate m 0x2E) [0..<m]) [0..<m] =
      map (\<lambda>k. if k = 0 then 10 else 14) [0..<m]"
    by (intro map_cong refl)
  show ?thesis
    unfolding spec_score_def length_replicate m by (rule sum_list_first_rest [OF assms(1)])
qed

lemma score_dots:
  assumes "0 < m" and "m \<le> n"
  shows "fst (score toLowerCaseSample (replicate n 0x2E) (replicate m 0x2E) None) =
    (14 * int m - 4, [0..<m])"
proof -
  have g: "greedy_positions (toLowerCaseSample (replicate n 0x2E))
      (query_searches toLowerCaseSample (replicate m 0x2E)) 0 = Some [0..<m]"
    using greedy_positions_replicate [of 0 m n "0x2E"] assms by (simp add: query_searches_dots)
  have le: "length (replicate m (0x2E :: code_unit)) \<le> length (replicate n (0x2E :: code_unit))"
    using assms by simp
  from score_uncached_Some [OF le g] spec_score_dots [OF assms] show ?thesis by simp
qed

lemma scoreFile_dots:
  assumes "1 < m" and "m < n"
  shows "fst (scoreFile toLowerCaseSample (Some (js ''x'', replicate n 0x2E)) pairAccessor
      (replicate m 0x2E) None) =
    \<lparr>file_score = 14 * int m - 4, basenameMatch = None,
     pathMatch = Some (createMatches [0..<m])\<rparr>"
proof -
  have 1: "score toLowerCaseSample [0x78] (replicate m 0x2E) None = (NO_SCORE, None)"
    using assms by (intro score_early) simp
  have 2: "score toLowerCaseSample (replicate n 0x2E) (replicate m 0x2E) None =
      ((14 * int m - 4, [0..<m]), None)"
    using score_dots [of m n]
      score_None_eq [of toLowerCaseSample "replicate n 0x2E" "replicate m 0x2E"] assms
    by simp
  have x: "toLowerCaseSample [0x78] = [0x78]"
    by code_simp
  have 3: "\<not> prefix (replicate m (0x2E :: code_unit)) (toLowerCaseSample [0x78])"
    unfolding x
    using assms prefix_length_le [of "replicate m (0x2E :: code_unit)" "[0x78]"]
    by auto
  have 4: "replicate m (0x2E :: code_unit) \<noteq> replicate n 0x2E"
    using assms by (metis length_replicate nat_neq_iff)
  have 5: "0 < 14 * int m - 4" using assms by simp
  have 6: "n \<noteq> 0" using assms by simp
  show ?thesis
    unfolding scoreFile_def Let_def matchesPrefix_def isEqual_def
    using 3 4 5 6 by (simp add: pairAccessor_def 1 2 NO_SCORE_def)
qed

text \<open>
  C6, as the code has it. The score of a path has no upper bound: every query character
  can earn up to 14 points. For a path of 4683 dots and the query of 4682 dots, with a
  basename that does not match, \<^verbatim>\<open>scoreFile\<close> returns the path-only score 65544, which
  is above the threshold \<^verbatim>\<open>1 << 16\<close> and above the basename result 65538 of the query
  \<^verbatim>\<open>b\<close> on the basename \<^verbatim>\<open>ab\<close>.
\<close>

theorem path_score_above_threshold_counterexample:
  "basenameMatch (fst (scoreFile toLowerCaseSample (Some (js ''x'', replicate 4683 0x2E)) pairAccessor
      (replicate 4682 0x2E) None)) = None \<and>
   file_score (fst (scoreFile toLowerCaseSample (Some (js ''x'', replicate 4683 0x2E)) pairAccessor
      (replicate 4682 0x2E) None)) = 65544 \<and>
   fst (fst (score toLowerCaseSample (replicate 4683 0x2E) (replicate 4682 0x2E) None)) = 65544 \<and>
   BASENAME_SCORE_THRESHOLD < 65544 \<and>
   file_score (fst (scoreFile toLowerCaseSample (Some (js ''ab'', js ''/ab'')) pairAccessor
      (js ''b'') None)) = 65538 \<and>
   pathMatch (fst (scoreFile toLowerCaseSample (Some (js ''ab'', js ''/ab'')) pairAccessor
      (js ''b'') None)) = None"
proof -
  have 1: "basenameMatch (fst (scoreFile toLowerCaseSample (Some (js ''x'', replicate 4683 0x2E))
      pairAccessor (replicate 4682 0x2E) None)) = None"
    using scoreFile_dots [of 4682 4683] by simp
  have 2: "file_score (fst (scoreFile toLowerCaseSample (Some (js ''x'', replicate 4683 0x2E))
      pairAccessor (replicate 4682 0x2E) None)) = 65544"
    using scoreFile_dots [of 4682 4683] by simp
  have 3: "fst (fst (score toLowerCaseSample (replicate 4683 0x2E) (replicate 4682 0x2E) None))
      = 65544"
    using score_dots [of 4682 4683] by simp
  have 4: "BASENAME_SCORE_THRESHOLD < 65544"
    by simp
  have 5: "file_score (fst (scoreFile toLowerCaseSample (Some (js ''ab'', js ''/ab'')) pairAccessor
      (js ''b'') None)) = 65538"
    by code_simp
  have 6: "pathMatch (fst (scoreFile toLowerCaseSample (Some (js ''ab'', js ''/ab'')) pairAccessor
      (js ''b'') None)) = None"
    by code_simp
  show ?thesis
    by (intro conjI 1 2 3 4 5 6)
qed

text \<open>
  C6, amended. The identity score is above the prefix score, which is above the
  threshold. For every lower-casing function, the score of a non-empty query is at most 14
  for each query character, less 4; so for a query of at most 4681 characters every path
  score is below the threshold. A basename score that is not 0 gives a result above the
  threshold. For a query of at most 4681 characters, a result of \<^verbatim>\<open>scoreFile\<close> without a
  basename match (a path-only result or the sentinel) is below every result of
  \<^verbatim>\<open>scoreFile\<close> with a basename match, whatever the files, accessors and queries.
\<close>

theorem tier_order:
  "BASENAME_SCORE_THRESHOLD < BASENAME_PREFIX_SCORE \<and>
   BASENAME_PREFIX_SCORE < PATH_IDENTITY_SCORE \<and>
   (query \<noteq> [] \<longrightarrow> fst (fst (score toLowerCase path query None)) \<le> 14 * int (length query) - 4) \<and>
   (length query \<le> 4681 \<longrightarrow> fst (fst (score toLowerCase path query None)) < BASENAME_SCORE_THRESHOLD) \<and>
   (fst (fst (score toLowerCase basename query3 None)) \<noteq> 0 \<longrightarrow>
      BASENAME_SCORE_THRESHOLD <
        fst (fst (score toLowerCase basename query3 None)) + BASENAME_SCORE_THRESHOLD) \<and>
   (basenameMatch (fst (scoreFile toLowerCase file3 accessor3 query3 None)) \<noteq> None \<and>
    basenameMatch (fst (scoreFile toLowerCase file4 accessor4 query None)) = None \<and>
    length query \<le> 4681 \<longrightarrow>
      file_score (fst (scoreFile toLowerCase file4 accessor4 query None)) < BASENAME_SCORE_THRESHOLD \<and>
      BASENAME_SCORE_THRESHOLD < file_score (fst (scoreFile toLowerCase file3 accessor3 query3 None)))"
proof -
  have 1: "fst (fst (score toLowerCase path query None)) \<le> 14 * int (length query) - 4"
    if "query \<noteq> []"
    using that by (rule score_uncached_le)
  have 2: "fst (fst (score toLowerCase path query None)) < BASENAME_SCORE_THRESHOLD"
    if "length query \<le> 4681"
  proof (cases "query = []")
    case True
    then show ?thesis by (simp add: score_def NO_SCORE_def)
  next
    case False
    from 1 [OF this] that show ?thesis by simp
  qed
  have 3: "BASENAME_SCORE_THRESHOLD <
      fst (fst (score toLowerCase basename query3 None)) + BASENAME_SCORE_THRESHOLD"
    if "fst (fst (score toLowerCase basename query3 None)) \<noteq> 0"
    using that score_uncached_nonneg [of toLowerCase basename query3] by simp
  have 4: "file_score (fst (scoreFile toLowerCase file4 accessor4 query None)) < BASENAME_SCORE_THRESHOLD"
    if "basenameMatch (fst (scoreFile toLowerCase file4 accessor4 query None)) = None"
      "length query \<le> 4681"
    using scoreFile_path_only_le [OF that(1)] that(2) by auto
  have 5: "BASENAME_SCORE_THRESHOLD < file_score (fst (scoreFile toLowerCase file3 accessor3 query3 None))"
    if "basenameMatch (fst (scoreFile toLowerCase file3 accessor3 query3 None)) \<noteq> None"
    using that by (rule scoreFile_basename_gt)
  from 1 2 3 4 5 show ?thesis by simp
qed

theorem tier_order_witness:
  "length (js ''xyz123'') \<le> 4681 \<and>
   basenameMatch (fst (scoreFile toLowerCaseSample someFile pairAccessor (js ''of'') None)) \<noteq> None \<and>
   basenameMatch (fst (scoreFile toLowerCaseSample someFile pairAccessor (js ''xyz123'') None)) = None \<and>
   file_score (fst (scoreFile toLowerCaseSample someFile pairAccessor (js ''xyz123'') None))
     < BASENAME_SCORE_THRESHOLD \<and>
   BASENAME_SCORE_THRESHOLD
     < file_score (fst (scoreFile toLowerCaseSample someFile pairAccessor (js ''of'') None)) \<and>
   fst (fst (score toLowerCaseSample (js ''/xyz/some/path/someFile123.txt'') (js ''xyz123'') None))
     \<le> 14 * 6 - 4"
proof -
  have a: "basenameMatch (fst (scoreFile toLowerCaseSample someFile pairAccessor (js ''of'') None)) \<noteq> None"
    "basenameMatch (fst (scoreFile toLowerCaseSample someFile pairAccessor (js ''xyz123'') None)) = None"
    by code_simp+
  from a tier_order [of "js ''xyz123''" toLowerCaseSample "js ''/xyz/some/path/someFile123.txt''"
      "js ''someFile123.txt''" "js ''of''" someFile pairAccessor someFile pairAccessor]
  show ?thesis by simp
qed

end
